theory Spec2Isabelle
  imports Main "HOL-Library.Monad_Syntax" "HOL-Library.Multiset"
begin

section \<open>Data model\<close>

text \<open>
  The source file is \<^verbatim>\<open>src/transforms/at-range.js\<close>. It works on an immutable document
  tree through a \<^verbatim>\<open>Transform\<close>. Node keys are process-unique identifiers; they are
  natural numbers here and fresh ones are drawn from a counter.
\<close>

type_synonym key = nat

datatype mark = Mark (mark_type: string) (mark_data: "(string \<times> string) list")

datatype character = Character (char_text: char) (char_marks: "mark list")

datatype node_kind = document_kind | block_kind | inline_kind | text_kind

datatype node =
    TextNode (key: key) (characters: "character list")
  | Container node_kind (key: key) string bool "node list"

fun kind :: "node \<Rightarrow> node_kind" where
  "kind (TextNode _ _) = text_kind"
| "kind (Container kd _ _ _ _) = kd"

fun node_type :: "node \<Rightarrow> string" where
  "node_type (TextNode _ _) = []"
| "node_type (Container _ _ ty _ _) = ty"

fun isVoid :: "node \<Rightarrow> bool" where
  "isVoid (TextNode _ _) = False"
| "isVoid (Container _ _ _ v _) = v"

fun nodes :: "node \<Rightarrow> node list" where
  "nodes (TextNode _ _) = []"
| "nodes (Container _ _ _ _ ns) = ns"

text \<open>A selection (the \<^verbatim>\<open>range\<close> argument of every operation), with its derived fields.\<close>

record selection =
  anchorKey :: key
  anchorOffset :: int
  focusKey :: key
  focusOffset :: int
  isBackward :: bool

definition isCollapsed :: "selection \<Rightarrow> bool" where
  "isCollapsed r = (anchorKey r = focusKey r \<and> anchorOffset r = focusOffset r)"

definition isExpanded :: "selection \<Rightarrow> bool" where
  "isExpanded r = (\<not> isCollapsed r)"

definition startKey :: "selection \<Rightarrow> key" where
  "startKey r = (if isBackward r then focusKey r else anchorKey r)"

definition startOffset :: "selection \<Rightarrow> int" where
  "startOffset r = (if isBackward r then focusOffset r else anchorOffset r)"

definition endKey :: "selection \<Rightarrow> key" where
  "endKey r = (if isBackward r then anchorKey r else focusKey r)"

definition endOffset :: "selection \<Rightarrow> int" where
  "endOffset r = (if isBackward r then anchorOffset r else focusOffset r)"

definition collapseToStart :: "selection \<Rightarrow> selection" where
  "collapseToStart r =
     \<lparr>anchorKey = startKey r, anchorOffset = startOffset r,
      focusKey = startKey r, focusOffset = startOffset r, isBackward = False\<rparr>"

definition collapseToEnd :: "selection \<Rightarrow> selection" where
  "collapseToEnd r =
     \<lparr>anchorKey = endKey r, anchorOffset = endOffset r,
      focusKey = endKey r, focusOffset = endOffset r, isBackward = False\<rparr>"

definition moveForward :: "int \<Rightarrow> selection \<Rightarrow> selection" where
  "moveForward n r =
     r\<lparr>anchorOffset := anchorOffset r + n, focusOffset := focusOffset r + n\<rparr>"

text \<open>
  The options object of an operation. Its only property is \<^verbatim>\<open>normalize\<close>, which may be
  absent or \<^verbatim>\<open>undefined\<close> (\<open>None\<close>). \<open>OPTS\<close> is the constant of lines 14-16.
\<close>

record options =
  opt_normalize :: "bool option"

definition OPTS :: options where
  "OPTS = \<lparr>opt_normalize = Some False\<rparr>"

definition no_options :: options where
  "no_options = \<lparr>opt_normalize = None\<rparr>"

text \<open>\<^verbatim>\<open>const { normalize = true } = options\<close>: the default applies to an absent or undefined property.\<close>

definition normalize_or_true :: "options \<Rightarrow> bool" where
  "normalize_or_true opts = (case opt_normalize opts of None \<Rightarrow> True | Some b \<Rightarrow> b)"

definition with_normalize :: "bool \<Rightarrow> options" where
  "with_normalize b = \<lparr>opt_normalize = Some b\<rparr>"

text \<open>
  The transform. It owns the current document; \<open>nextKey\<close> is the state of the key
  generator; \<open>calls\<close> records, in order, every primitive key-addressed operation invoked on
  the transform together with the options object it was given, and every normalization.
\<close>

datatype call =
    AddMarkByKey key int int mark options
  | RemoveMarkByKey key int int mark options
  | RemoveTextByKey key int int options
  | InsertTextByKey key int string "mark list" options
  | SplitNodeByKey key int options
  | RemoveNodeByKey key options
  | InsertNodeByKey key int node options
  | MoveNodeByKey key key int options
  | NormalizeNodeByKey key
  | NormalizeDocument

record transform =
  document :: node
  nextKey :: nat
  calls :: "call list"

text \<open>
  The core schema (\<^verbatim>\<open>SCHEMA\<close>, imported from \<^verbatim>\<open>../schemas/core\<close>) is not part of the
  source file. It is a parameter of every operation: its repair pass maps, for the key of
  the node to normalize, a document and key-generator state to the repaired ones.
\<close>

type_synonym schema = "key \<Rightarrow> node \<times> nat \<Rightarrow> node \<times> nat"

section \<open>Immutable list helpers\<close>

text \<open>\<^verbatim>\<open>List.indexOf\<close>: the index of the first equal element, or -1.\<close>

fun indexOf :: "'a list \<Rightarrow> 'a \<Rightarrow> int" where
  "indexOf [] x = -1"
| "indexOf (y # ys) x = (if y = x then 0 else (let i = indexOf ys x in if i < 0 then -1 else i + 1))"

text \<open>Index resolution of \<^verbatim>\<open>List.slice\<close> and \<^verbatim>\<open>List.insert\<close>: negative indexes count from the end, and all are clamped.\<close>

definition resolveIndex :: "int \<Rightarrow> nat \<Rightarrow> nat" where
  "resolveIndex i sz = (if i < 0 then nat (max 0 (int sz + i)) else min sz (nat i))"

definition slice :: "int \<Rightarrow> int \<Rightarrow> 'a list \<Rightarrow> 'a list" where
  "slice b e xs =
     (let rb = resolveIndex b (length xs); re = resolveIndex e (length xs)
      in take (re - rb) (drop rb xs))"

definition insertAt :: "int \<Rightarrow> 'a \<Rightarrow> 'a list \<Rightarrow> 'a list" where
  "insertAt i x xs = (let j = resolveIndex i (length xs) in take j xs @ x # drop j xs)"

text \<open>\<^verbatim>\<open>forEach((x, i) => ...)\<close> over a list, threading the transform; an exception stops the loop.\<close>

fun forEach :: "('a \<Rightarrow> int \<Rightarrow> transform \<Rightarrow> transform option) \<Rightarrow> 'a list \<Rightarrow> int \<Rightarrow> transform \<Rightarrow> transform option" where
  "forEach f [] i t = Some t"
| "forEach f (x # xs) i t = (case f x i t of None \<Rightarrow> None | Some t' \<Rightarrow> forEach f xs (i + 1) t')"

section \<open>Document queries\<close>

text \<open>
  Modelled from the spec: the node queries live in the node model, which is not part of the
  source file. They follow section 6 of the specification (descendant lookup, closest
  block or inline containing a key, common ancestor, highest child containing a key, next
  text leaf, text leaves spanned by a range, furthest ancestor matching a predicate) and
  section 4.1 (offset of a key within an ancestor). A query that needs a key which does not
  resolve is an integrity fault: \<open>None\<close>.
\<close>

fun getTexts :: "node \<Rightarrow> node list" and getTextsIn :: "node list \<Rightarrow> node list" where
  "getTexts (TextNode k cs) = []"
| "getTexts (Container kd k ty v ns) = getTextsIn ns"
| "getTextsIn [] = []"
| "getTextsIn (n # ns) = (if kind n = text_kind then [n] else getTexts n) @ getTextsIn ns"

fun node_text :: "node \<Rightarrow> string" and node_text_in :: "node list \<Rightarrow> string" where
  "node_text (TextNode k cs) = map char_text cs"
| "node_text (Container kd k ty v ns) = node_text_in ns"
| "node_text_in [] = []"
| "node_text_in (n # ns) = node_text n @ node_text_in ns"

definition node_length :: "node \<Rightarrow> int" where
  "node_length n = int (length (node_text n))"

definition isEmpty :: "node \<Rightarrow> bool" where
  "isEmpty n = (node_text n = [])"

fun getDescendant :: "node \<Rightarrow> key \<Rightarrow> node option" and getDescendantIn :: "node list \<Rightarrow> key \<Rightarrow> node option" where
  "getDescendant (TextNode k cs) x = None"
| "getDescendant (Container kd k ty v ns) x = getDescendantIn ns x"
| "getDescendantIn [] x = None"
| "getDescendantIn (n # ns) x =
     (if key n = x then Some n
      else case getDescendant n x of Some d \<Rightarrow> Some d | None \<Rightarrow> getDescendantIn ns x)"

definition hasDescendant :: "node \<Rightarrow> key \<Rightarrow> bool" where
  "hasDescendant n x = (getDescendant n x \<noteq> None)"

text \<open>The ancestors of a key, from the node itself down to the parent; empty for the node's own key.\<close>

fun getAncestors :: "node \<Rightarrow> key \<Rightarrow> node list option" and getAncestorsIn :: "node list \<Rightarrow> key \<Rightarrow> node list option" where
  "getAncestors (TextNode k cs) x = (if k = x then Some [] else None)"
| "getAncestors (Container kd k ty v ns) x =
     (if k = x then Some []
      else case getAncestorsIn ns x of None \<Rightarrow> None | Some as \<Rightarrow> Some (Container kd k ty v ns # as))"
| "getAncestorsIn [] x = None"
| "getAncestorsIn (n # ns) x =
     (case getAncestors n x of Some as \<Rightarrow> Some as | None \<Rightarrow> getAncestorsIn ns x)"

definition getParent :: "node \<Rightarrow> key \<Rightarrow> node option" where
  "getParent d x = (case getAncestors d x of None \<Rightarrow> None | Some as \<Rightarrow> if as = [] then None else Some (last as))"

text \<open>\<^verbatim>\<open>getClosest\<close> and \<^verbatim>\<open>getFurthest\<close> search the ancestors other than the node itself; the outer option is the integrity fault, the inner one the absence of a match.\<close>

definition getClosest :: "node \<Rightarrow> key \<Rightarrow> (node \<Rightarrow> bool) \<Rightarrow> node option option" where
  "getClosest d x P = (case getAncestors d x of None \<Rightarrow> None | Some as \<Rightarrow> Some (find P (rev (tl as))))"

definition getFurthest :: "node \<Rightarrow> key \<Rightarrow> (node \<Rightarrow> bool) \<Rightarrow> node option option" where
  "getFurthest d x P = (case getAncestors d x of None \<Rightarrow> None | Some as \<Rightarrow> Some (find P (tl as)))"

definition getClosestBlock :: "node \<Rightarrow> key \<Rightarrow> node option option" where
  "getClosestBlock d x = getClosest d x (\<lambda>p. kind p = block_kind)"

definition getHighestChild :: "node \<Rightarrow> key \<Rightarrow> node option" where
  "getHighestChild n x = find (\<lambda>c. key c = x \<or> hasDescendant c x) (nodes n)"

fun getOffset :: "node \<Rightarrow> key \<Rightarrow> int option" and getOffsetIn :: "node list \<Rightarrow> key \<Rightarrow> int option" where
  "getOffset (TextNode k cs) x = None"
| "getOffset (Container kd k ty v ns) x = getOffsetIn ns x"
| "getOffsetIn [] x = None"
| "getOffsetIn (n # ns) x =
     (if key n = x then Some 0
      else case getOffset n x of Some off \<Rightarrow> Some off
           | None \<Rightarrow> (case getOffsetIn ns x of None \<Rightarrow> None | Some off \<Rightarrow> Some (node_length n + off)))"

definition getNextText :: "node \<Rightarrow> key \<Rightarrow> node option" where
  "getNextText d x =
     (case dropWhile (\<lambda>t. key t \<noteq> x) (getTexts d) of _ # t # _ \<Rightarrow> Some t | _ \<Rightarrow> None)"

definition getTextsAtRange :: "node \<Rightarrow> selection \<Rightarrow> node list option" where
  "getTextsAtRange d r =
     (let texts = getTexts d in
      case (find (\<lambda>t. key t = startKey r) texts, find (\<lambda>t. key t = endKey r) texts) of
        (Some startText, Some endText) \<Rightarrow>
          Some (slice (indexOf texts startText) (indexOf texts endText + 1) texts)
      | _ \<Rightarrow> None)"


text \<open>The characters of a spanned text leaf that lie inside the range.\<close>

definition charactersInRange :: "selection \<Rightarrow> node \<Rightarrow> character list" where
  "charactersInRange r tx =
     map snd (filter (\<lambda>(i, c). (key tx = startKey r \<longrightarrow> startOffset r \<le> int i) \<and>
                                (key tx = endKey r \<longrightarrow> int i < endOffset r))
                     (enumerate 0 (characters tx)))"

definition getMarksAtRange :: "node \<Rightarrow> selection \<Rightarrow> mark list option" where
  "getMarksAtRange d r =
     (case getTextsAtRange d r of None \<Rightarrow> None
      | Some texts \<Rightarrow> Some (concat (map (\<lambda>tx. concat (map char_marks (charactersInRange r tx))) texts)))"

fun commonPrefix :: "'a list \<Rightarrow> 'a list \<Rightarrow> 'a list" where
  "commonPrefix (x # xs) (y # ys) = (if x = y then x # commonPrefix xs ys else [])"
| "commonPrefix _ _ = []"

definition getCommonAncestor :: "node \<Rightarrow> key \<Rightarrow> key \<Rightarrow> node option" where
  "getCommonAncestor d one two =
     (case (getAncestors d one, getAncestors d two) of
        (Some as1, Some as2) \<Rightarrow>
          (let common = commonPrefix as1 as2 in if common = [] then None else Some (last common))
      | _ \<Rightarrow> None)"


text \<open>The leaf blocks of a node, in document order: the blocks whose first child is not a block.\<close>

fun getBlocks :: "node \<Rightarrow> node list" and getBlocksIn :: "node list \<Rightarrow> node list" where
  "getBlocks (TextNode k cs) = []"
| "getBlocks (Container kd k ty v ns) = getBlocksIn ns"
| "getBlocksIn [] = []"
| "getBlocksIn (n # ns) =
     (if kind n \<noteq> block_kind then []
      else if (case nodes n of c # _ \<Rightarrow> kind c = block_kind | [] \<Rightarrow> False) then getBlocks n
      else [n]) @ getBlocksIn ns"




definition firstText :: "node \<Rightarrow> node option" where
  "firstText n = (if kind n = text_kind then Some n else case getTexts n of [] \<Rightarrow> None | f # _ \<Rightarrow> Some f)"

definition lastText :: "node \<Rightarrow> node option" where
  "lastText n = (if kind n = text_kind then Some n else case getTexts n of [] \<Rightarrow> None | txs \<Rightarrow> Some (last txs))"

definition isAtStartOf :: "selection \<Rightarrow> node \<Rightarrow> bool" where
  "isAtStartOf r n =
     (if isExpanded r then False
      else if startOffset r \<noteq> 0 then False
      else case firstText n of None \<Rightarrow> False | Some f \<Rightarrow> startKey r = key f)"

definition isAtEndOf :: "selection \<Rightarrow> node \<Rightarrow> bool" where
  "isAtEndOf r n =
     (if isExpanded r then False
      else case lastText n of None \<Rightarrow> False | Some l \<Rightarrow> endKey r = key l \<and> endOffset r = node_length l)"

section \<open>Primitive key-addressed operations\<close>

text \<open>
  Modelled from the spec: the primitive layer (\<^verbatim>\<open>addMarkByKey\<close>, \<^verbatim>\<open>removeMarkByKey\<close>,
  \<^verbatim>\<open>removeTextByKey\<close>, \<^verbatim>\<open>insertTextByKey\<close>, \<^verbatim>\<open>splitNodeByKey\<close>, \<^verbatim>\<open>removeNodeByKey\<close>,
  \<^verbatim>\<open>insertNodeByKey\<close>, \<^verbatim>\<open>moveNodeByKey\<close>, \<^verbatim>\<open>normalizeNodeByKey\<close>) is not part of the
  source file. Section 6 of the specification gives the interface: each primitive is
  atomic, commits an updated document and accepts an optional normalize flag, which
  defaults to running the repair pass. A key that does not resolve is an integrity fault
  (section 7). Keys are unique in a document (section 3), so a key addresses one node;
  a split keeps the keys in the leading half and draws fresh keys for the trailing half
  of every node it cuts.
\<close>

fun updateNode :: "key \<Rightarrow> (node \<Rightarrow> node) \<Rightarrow> node \<Rightarrow> node"
  and updateNodeIn :: "key \<Rightarrow> (node \<Rightarrow> node) \<Rightarrow> node list \<Rightarrow> node list" where
  "updateNode x f (TextNode k cs) = (if k = x then f (TextNode k cs) else TextNode k cs)"
| "updateNode x f (Container kd k ty v ns) =
     (if k = x then f (Container kd k ty v ns) else Container kd k ty v (updateNodeIn x f ns))"
| "updateNodeIn x f [] = []"
| "updateNodeIn x f (n # ns) = updateNode x f n # updateNodeIn x f ns"

fun removeDescendant :: "key \<Rightarrow> node \<Rightarrow> node" and removeIn :: "key \<Rightarrow> node list \<Rightarrow> node list" where
  "removeDescendant x (TextNode k cs) = TextNode k cs"
| "removeDescendant x (Container kd k ty v ns) = Container kd k ty v (removeIn x ns)"
| "removeIn x [] = []"
| "removeIn x (n # ns) = (if key n = x then removeIn x ns else removeDescendant x n # removeIn x ns)"

fun replaceDescendant :: "key \<Rightarrow> node list \<Rightarrow> node \<Rightarrow> node"
  and replaceIn :: "key \<Rightarrow> node list \<Rightarrow> node list \<Rightarrow> node list" where
  "replaceDescendant x new (TextNode k cs) = TextNode k cs"
| "replaceDescendant x new (Container kd k ty v ns) = Container kd k ty v (replaceIn x new ns)"
| "replaceIn x new [] = []"
| "replaceIn x new (n # ns) =
     (if key n = x then new @ replaceIn x new ns else replaceDescendant x new n # replaceIn x new ns)"

definition getNode :: "node \<Rightarrow> key \<Rightarrow> node option" where
  "getNode d x = (if key d = x then Some d else getDescendant d x)"

fun setNodes :: "node list \<Rightarrow> node \<Rightarrow> node" where
  "setNodes ns (TextNode k cs) = TextNode k cs"
| "setNodes ns (Container kd k ty v _) = Container kd k ty v ns"


definition normalizeNodeByKey :: "schema \<Rightarrow> key \<Rightarrow> transform \<Rightarrow> transform option" where
  "normalizeNodeByKey S k t =
     (case S k (document t, nextKey t) of
        (d, n) \<Rightarrow> Some \<lparr>document = d, nextKey = n, calls = calls t @ [NormalizeNodeByKey k]\<rparr>)"

text \<open>The trailing repair pass of a primitive: the parent of the addressed key, looked up in the document before the operation.\<close>

definition normalizeParent :: "schema \<Rightarrow> node \<Rightarrow> key \<Rightarrow> options \<Rightarrow> transform \<Rightarrow> transform option" where
  "normalizeParent S d k opts t =
     (if normalize_or_true opts
      then (case getParent d k of None \<Rightarrow> None | Some p \<Rightarrow> normalizeNodeByKey S (key p) t)
      else Some t)"

definition addMarkChars :: "int \<Rightarrow> int \<Rightarrow> mark \<Rightarrow> character list \<Rightarrow> character list" where
  "addMarkChars index len m cs =
     map (\<lambda>(i, c). if index \<le> int i \<and> int i < index + len
                    then Character (char_text c) (List.insert m (char_marks c)) else c)
         (enumerate 0 cs)"

definition removeMarkChars :: "int \<Rightarrow> int \<Rightarrow> mark \<Rightarrow> character list \<Rightarrow> character list" where
  "removeMarkChars index len m cs =
     map (\<lambda>(i, c). if index \<le> int i \<and> int i < index + len
                    then Character (char_text c) (removeAll m (char_marks c)) else c)
         (enumerate 0 cs)"

definition removeChars :: "int \<Rightarrow> int \<Rightarrow> character list \<Rightarrow> character list" where
  "removeChars index len cs =
     map snd (filter (\<lambda>(i, c). \<not> (index \<le> int i \<and> int i < index + len)) (enumerate 0 cs))"

definition insertChars :: "int \<Rightarrow> string \<Rightarrow> mark list \<Rightarrow> character list \<Rightarrow> character list" where
  "insertChars index s ms cs =
     (let j = resolveIndex index (length cs)
      in take j cs @ map (\<lambda>c. Character c ms) s @ drop j cs)"

definition updateText :: "schema \<Rightarrow> key \<Rightarrow> (character list \<Rightarrow> character list) \<Rightarrow> call \<Rightarrow> options \<Rightarrow> transform \<Rightarrow> transform option" where
  "updateText S k f c opts t =
     (case getDescendant (document t) k of
        Some (TextNode _ _) \<Rightarrow>
          normalizeParent S (document t) k opts
            (t\<lparr>document := updateNode k (\<lambda>n. TextNode (key n) (f (characters n))) (document t),
               calls := calls t @ [c]\<rparr>)
      | _ \<Rightarrow> None)"

definition addMarkByKey :: "schema \<Rightarrow> key \<Rightarrow> int \<Rightarrow> int \<Rightarrow> mark \<Rightarrow> options \<Rightarrow> transform \<Rightarrow> transform option" where
  "addMarkByKey S k index len m opts t =
     updateText S k (addMarkChars index len m) (AddMarkByKey k index len m opts) opts t"

definition removeMarkByKey :: "schema \<Rightarrow> key \<Rightarrow> int \<Rightarrow> int \<Rightarrow> mark \<Rightarrow> options \<Rightarrow> transform \<Rightarrow> transform option" where
  "removeMarkByKey S k index len m opts t =
     updateText S k (removeMarkChars index len m) (RemoveMarkByKey k index len m opts) opts t"

definition removeTextByKey :: "schema \<Rightarrow> key \<Rightarrow> int \<Rightarrow> int \<Rightarrow> options \<Rightarrow> transform \<Rightarrow> transform option" where
  "removeTextByKey S k index len opts t =
     updateText S k (removeChars index len) (RemoveTextByKey k index len opts) opts t"

definition insertTextByKey :: "schema \<Rightarrow> key \<Rightarrow> int \<Rightarrow> string \<Rightarrow> mark list \<Rightarrow> options \<Rightarrow> transform \<Rightarrow> transform option" where
  "insertTextByKey S k index s ms opts t =
     updateText S k (insertChars index s ms) (InsertTextByKey k index s ms opts) opts t"

definition removeNodeByKey :: "schema \<Rightarrow> key \<Rightarrow> options \<Rightarrow> transform \<Rightarrow> transform option" where
  "removeNodeByKey S k opts t =
     (case getDescendant (document t) k of
        None \<Rightarrow> None
      | Some _ \<Rightarrow>
          normalizeParent S (document t) k opts
            (t\<lparr>document := removeDescendant k (document t),
               calls := calls t @ [RemoveNodeByKey k opts]\<rparr>))"

text \<open>The target of an insertion is the document or one of its containers.\<close>

definition insertNode :: "key \<Rightarrow> int \<Rightarrow> node \<Rightarrow> node \<Rightarrow> node option" where
  "insertNode pk index n d =
     (case getNode d pk of
        Some (Container _ _ _ _ _) \<Rightarrow> Some (updateNode pk (\<lambda>p. setNodes (insertAt index n (nodes p)) p) d)
      | _ \<Rightarrow> None)"

definition insertNodeByKey :: "schema \<Rightarrow> key \<Rightarrow> int \<Rightarrow> node \<Rightarrow> options \<Rightarrow> transform \<Rightarrow> transform option" where
  "insertNodeByKey S pk index n opts t =
     (case insertNode pk index n (document t) of
        None \<Rightarrow> None
      | Some d' \<Rightarrow>
          (let t1 = t\<lparr>document := d', calls := calls t @ [InsertNodeByKey pk index n opts]\<rparr>
           in if normalize_or_true opts then normalizeNodeByKey S pk t1 else Some t1))"

definition moveNodeByKey :: "schema \<Rightarrow> key \<Rightarrow> key \<Rightarrow> int \<Rightarrow> options \<Rightarrow> transform \<Rightarrow> transform option" where
  "moveNodeByKey S k newKey newIndex opts t =
     (let d = document t in
      case getDescendant d k of
        None \<Rightarrow> None
      | Some n \<Rightarrow>
          (case insertNode newKey newIndex n (removeDescendant k d) of
             None \<Rightarrow> None
           | Some d' \<Rightarrow>
               (let t1 = t\<lparr>document := d', calls := calls t @ [MoveNodeByKey k newKey newIndex opts]\<rparr>
                in if normalize_or_true opts
                   then (case (if key d = newKey then Some d else getCommonAncestor d k newKey) of
                           None \<Rightarrow> None
                         | Some p \<Rightarrow> normalizeNodeByKey S (key p) t1)
                   else Some t1)))"

text \<open>The text leaf in which a split at a text offset of a container falls.\<close>

fun textAtOffset :: "node list \<Rightarrow> int \<Rightarrow> int \<Rightarrow> node option" where
  "textAtOffset [] acc off = None"
| "textAtOffset (tx # txs) acc off =
     (let acc' = acc + node_length tx in if acc' \<ge> off then Some tx else textAtOffset txs acc' off)"

definition getTextAtOffset :: "node \<Rightarrow> int \<Rightarrow> node option" where
  "getTextAtOffset n off = textAtOffset (getTexts n) 0 off"

text \<open>
  Cutting a node along the path to the text leaf \<open>tk\<close>, at index \<open>i\<close> of that leaf. The
  result is the leading half, the trailing half and the key generator; the fresh keys are
  drawn from the leaf upwards.
\<close>

fun splitPath :: "node \<Rightarrow> key \<Rightarrow> int \<Rightarrow> nat \<Rightarrow> (node \<times> node \<times> nat) option"
  and splitChildren :: "node list \<Rightarrow> key \<Rightarrow> int \<Rightarrow> nat \<Rightarrow> (node list \<times> node list \<times> nat) option" where
  "splitPath (TextNode k cs) tk i g =
     Some (TextNode k (take (nat i) cs), TextNode g (drop (nat i) cs), g + 1)"
| "splitPath (Container kd k ty v ns) tk i g =
     (case splitChildren ns tk i g of
        None \<Rightarrow> None
      | Some (ones, twos, g') \<Rightarrow> Some (Container kd k ty v ones, Container kd g' ty v twos, g' + 1))"
| "splitChildren [] tk i g = None"
| "splitChildren (c # cs) tk i g =
     (if key c = tk \<or> hasDescendant c tk
      then (case splitPath c tk i g of
              None \<Rightarrow> None
            | Some (one, two, g') \<Rightarrow> Some ([one], two # cs, g'))
      else (case splitChildren cs tk i g of
              None \<Rightarrow> None
            | Some (ones, twos, g') \<Rightarrow> Some (c # ones, twos, g')))"

definition splitNode :: "node \<Rightarrow> int \<Rightarrow> nat \<Rightarrow> (node \<times> node \<times> nat) option" where
  "splitNode n off g =
     (if kind n = text_kind then splitPath n (key n) off g
      else case getTextAtOffset n off of
             None \<Rightarrow> None
           | Some tx \<Rightarrow> (case getOffset n (key tx) of
                          None \<Rightarrow> None
                        | Some base \<Rightarrow> splitPath n (key tx) (off - base) g))"

definition splitNodeByKey :: "schema \<Rightarrow> key \<Rightarrow> int \<Rightarrow> options \<Rightarrow> transform \<Rightarrow> transform option" where
  "splitNodeByKey S k off opts t =
     (case getDescendant (document t) k of
        None \<Rightarrow> None
      | Some n \<Rightarrow>
          (case splitNode n off (nextKey t) of
             None \<Rightarrow> None
           | Some (one, two, g) \<Rightarrow>
               normalizeParent S (document t) k opts
                 \<lparr>document = replaceDescendant k [one, two] (document t), nextKey = g,
                  calls = calls t @ [SplitNodeByKey k off opts]\<rparr>))"


section \<open>The operations of at-range.js\<close>

text \<open>
  Each operation takes the transform last and returns the updated transform; \<open>None\<close> is
  an exception. \<^verbatim>\<open>Normalize.block\<close>, \<^verbatim>\<open>Normalize.inline\<close> and \<^verbatim>\<open>Normalize.mark\<close> coerce
  loose values to nodes and marks; the arguments here are already nodes and marks.
\<close>

text \<open>\<^verbatim>\<open>addMarkAtRange\<close>, lines 28-48.\<close>

definition addMarkAtRange :: "schema \<Rightarrow> selection \<Rightarrow> mark \<Rightarrow> options \<Rightarrow> transform \<Rightarrow> transform option" where
  "addMarkAtRange S r m opts t =
     (if isCollapsed r then Some t
      else
        let normalize = normalize_or_true opts;
            d = document t
        in case getTextsAtRange d r of
             None \<Rightarrow> None
           | Some texts \<Rightarrow>
               forEach (\<lambda>tx _ tr.
                  let k = key tx;
                      index = 0;
                      len = node_length tx;
                      index = (if k = startKey r then startOffset r else index);
                      len = (if k = endKey r then endOffset r else len);
                      len = (if k = startKey r \<and> k = endKey r then endOffset r - startOffset r else len)
                  in addMarkByKey S k index len m (with_normalize normalize) tr) texts 0 t)"

text \<open>\<^verbatim>\<open>deleteAtRange\<close>, lines 59-121.\<close>

definition deleteAtRange :: "schema \<Rightarrow> selection \<Rightarrow> options \<Rightarrow> transform \<Rightarrow> transform option" where
  "deleteAtRange S r opts t =
     (if isCollapsed r then Some t
      else
        let normalize = normalize_or_true opts in
        if startKey r = endKey r
        then removeTextByKey S (startKey r) (startOffset r) (endOffset r - startOffset r)
               (with_normalize normalize) t
        else do {
          let d = document t;
          ancestor \<leftarrow> getCommonAncestor d (startKey r) (endKey r);
          startChild \<leftarrow> getHighestChild ancestor (startKey r);
          endChild \<leftarrow> getHighestChild ancestor (endKey r);
          startBase \<leftarrow> (if kind startChild = text_kind then Some 0 else getOffset startChild (startKey r));
          let startOff = startBase + startOffset r;
          endBase \<leftarrow> (if kind endChild = text_kind then Some 0 else getOffset endChild (endKey r));
          let endOff = endBase + endOffset r;
          t \<leftarrow> splitNodeByKey S (key startChild) startOff OPTS t;
          t \<leftarrow> splitNodeByKey S (key endChild) endOff OPTS t;
          let d = document t;
          ancestor \<leftarrow> getCommonAncestor d (startKey r) (endKey r);
          startChild \<leftarrow> getHighestChild ancestor (startKey r);
          endChild \<leftarrow> getHighestChild ancestor (endKey r);
          let startIndex = indexOf (nodes ancestor) startChild;
          let endIndex = indexOf (nodes ancestor) endChild;
          let middles = slice (startIndex + 1) (endIndex + 1) (nodes ancestor);
          t \<leftarrow> forEach (\<lambda>child _. removeNodeByKey S (key child) OPTS) middles 0 t;
          startBlockOpt \<leftarrow> getClosestBlock d (startKey r);
          nextText \<leftarrow> getNextText d (endKey r);
          endBlockOpt \<leftarrow> getClosestBlock d (key nextText);
          startBlock \<leftarrow> startBlockOpt;
          endBlock \<leftarrow> endBlockOpt;
          t \<leftarrow> (if key startBlock \<noteq> key endBlock
                then do {
                  t \<leftarrow> forEach (\<lambda>child i.
                         let newKey = key startBlock;
                             newIndex = int (length (nodes startBlock)) + i
                         in moveNodeByKey S (key child) newKey newIndex OPTS) (nodes endBlock) 0 t;
                  furthest \<leftarrow> getFurthest d (key endBlock) (\<lambda>p. length (nodes p) = 1);
                  let lonely = (case furthest of Some p \<Rightarrow> p | None \<Rightarrow> endBlock);
                  removeNodeByKey S (key lonely) OPTS t
                }
                else Some t);
          if normalize then normalizeNodeByKey S (key ancestor) t else Some t
        })"

text \<open>\<^verbatim>\<open>insertBlockAtRange\<close>, lines 385-428.\<close>

definition insertBlockAtRange :: "schema \<Rightarrow> selection \<Rightarrow> node \<Rightarrow> options \<Rightarrow> transform \<Rightarrow> transform option" where
  "insertBlockAtRange S r0 block opts t0 =
     do {
       let normalize = normalize_or_true opts;
       (t, r) \<leftarrow> (if isExpanded r0
                   then do { t \<leftarrow> deleteAtRange S r0 no_options t0; Some (t, collapseToStart r0) }
                   else Some (t0, r0));
       let d = document t;
       startText \<leftarrow> getDescendant d (startKey r);
       startBlockOpt \<leftarrow> getClosestBlock d (startKey r);
       startBlock \<leftarrow> startBlockOpt;
       parent \<leftarrow> getParent d (key startBlock);
       let index = indexOf (nodes parent) startBlock;
       t \<leftarrow> (if isVoid startBlock
             then insertNodeByKey S (key parent) (index + 1) block (with_normalize normalize) t
             else if isEmpty startBlock
             then do {
               t \<leftarrow> removeNodeByKey S (key startBlock) no_options t;
               insertNodeByKey S (key parent) index block (with_normalize normalize) t
             }
             else if isAtStartOf r startBlock
             then insertNodeByKey S (key parent) index block (with_normalize normalize) t
             else if isAtEndOf r startBlock
             then insertNodeByKey S (key parent) (index + 1) block (with_normalize normalize) t
             else do {
               base \<leftarrow> getOffset startBlock (key startText);
               let offset = base + startOffset r;
               t \<leftarrow> splitNodeByKey S (key startBlock) offset (with_normalize normalize) t;
               insertNodeByKey S (key parent) (index + 1) block (with_normalize normalize) t
             });
       if normalize then normalizeNodeByKey S (key parent) t else Some t
     }"



text \<open>\<^verbatim>\<open>insertTextAtRange\<close>, lines 589-608. Here \<open>normalize\<close> is read without a default.\<close>

definition insertTextAtRange :: "schema \<Rightarrow> selection \<Rightarrow> string \<Rightarrow> mark list \<Rightarrow> options \<Rightarrow> transform \<Rightarrow> transform option" where
  "insertTextAtRange S r s marks opts t0 =
     do {
       let normalize = opt_normalize opts;
       let d = document t0;
       parent \<leftarrow> getParent d (startKey r);
       if isVoid parent then Some t0
       else do {
         t \<leftarrow> (if isExpanded r then deleteAtRange S r OPTS t0 else Some t0);
         let normalize = (if normalize \<noteq> None then Some (isExpanded r) else normalize);
         insertTextByKey S (startKey r) (startOffset r) s marks \<lparr>opt_normalize = normalize\<rparr> t
       }
     }"

text \<open>\<^verbatim>\<open>removeMarkAtRange\<close>, lines 620-640.\<close>

definition removeMarkAtRange :: "schema \<Rightarrow> selection \<Rightarrow> mark \<Rightarrow> options \<Rightarrow> transform \<Rightarrow> transform option" where
  "removeMarkAtRange S r m opts t =
     (if isCollapsed r then Some t
      else
        let normalize = normalize_or_true opts;
            d = document t
        in case getTextsAtRange d r of
             None \<Rightarrow> None
           | Some texts \<Rightarrow>
               forEach (\<lambda>tx _ tr.
                  let k = key tx;
                      index = 0;
                      len = node_length tx;
                      index = (if k = startKey r then startOffset r else index);
                      len = (if k = endKey r then endOffset r else len);
                      len = (if k = startKey r \<and> k = endKey r then endOffset r - startOffset r else len)
                  in removeMarkByKey S k index len m (with_normalize normalize) tr) texts 0 t)"

text \<open>\<^verbatim>\<open>toggleMarkAtRange\<close>, lines 767-783.\<close>

definition toggleMarkAtRange :: "schema \<Rightarrow> selection \<Rightarrow> mark \<Rightarrow> options \<Rightarrow> transform \<Rightarrow> transform option" where
  "toggleMarkAtRange S r m opts t =
     (if isCollapsed r then Some t
      else
        let normalize = normalize_or_true opts;
            d = document t
        in case getMarksAtRange d r of
             None \<Rightarrow> None
           | Some marks \<Rightarrow>
               (let exists = list_ex (\<lambda>m'. m' = m) marks
                in if exists then removeMarkAtRange S r m (with_normalize normalize) t
                   else addMarkAtRange S r m (with_normalize normalize) t))"





section \<open>Vocabulary for the claims\<close>

text \<open>
  The calls made between two states of a transform, and among them the primitive
  operations (everything but the repair passes).
\<close>

fun isNormalizeCall :: "call \<Rightarrow> bool" where
  "isNormalizeCall (NormalizeNodeByKey _) = True"
| "isNormalizeCall NormalizeDocument = True"
| "isNormalizeCall _ = False"

definition newCalls :: "transform \<Rightarrow> transform \<Rightarrow> call list" where
  "newCalls t t' = drop (length (calls t)) (calls t')"

definition primitiveCalls :: "transform \<Rightarrow> transform \<Rightarrow> call list" where
  "primitiveCalls t t' = filter (\<lambda>c. \<not> isNormalizeCall c) (newCalls t t')"

text \<open>The index and length computed for a text leaf at lines 38-44 and 630-636.\<close>

definition leafInterval :: "selection \<Rightarrow> node \<Rightarrow> int \<times> int" where
  "leafInterval r tx =
     (let k = key tx;
          index = 0;
          len = node_length tx;
          index = (if k = startKey r then startOffset r else index);
          len = (if k = endKey r then endOffset r else len);
          len = (if k = startKey r \<and> k = endKey r then endOffset r - startOffset r else len)
      in (index, len))"

text \<open>The elements of a list paired with the indexes a \<^verbatim>\<open>forEach\<close> from \<open>i\<close> gives them.\<close>

fun indexed :: "'a list \<Rightarrow> int \<Rightarrow> ('a \<times> int) list" where
  "indexed [] i = []"
| "indexed (x # xs) i = (x, i) # indexed xs (i + 1)"



text \<open>
  The options object a primitive call was given. A list of calls is quiet when every call
  is a primitive that was given \<open>OPTS\<close>; it is batched when every primitive in it was
  given \<open>OPTS\<close> and no repair pass occurs before its last call. \<open>quietStep\<close> relates two
  states of a transform with only quiet calls between them, and \<open>post m Q\<close> says that the
  result of \<open>m\<close>, if there is one, satisfies \<open>Q\<close>.
\<close>

fun callOptions :: "call \<Rightarrow> options option" where
  "callOptions (AddMarkByKey _ _ _ _ opts) = Some opts"
| "callOptions (RemoveMarkByKey _ _ _ _ opts) = Some opts"
| "callOptions (RemoveTextByKey _ _ _ opts) = Some opts"
| "callOptions (InsertTextByKey _ _ _ _ opts) = Some opts"
| "callOptions (SplitNodeByKey _ _ opts) = Some opts"
| "callOptions (RemoveNodeByKey _ opts) = Some opts"
| "callOptions (InsertNodeByKey _ _ _ opts) = Some opts"
| "callOptions (MoveNodeByKey _ _ _ opts) = Some opts"
| "callOptions (NormalizeNodeByKey _) = None"
| "callOptions NormalizeDocument = None"

definition quiet :: "call list \<Rightarrow> bool" where
  "quiet cs = (\<forall>c\<in>set cs. callOptions c = Some OPTS)"


definition quietStep :: "transform \<Rightarrow> transform \<Rightarrow> bool" where
  "quietStep t t' = (\<exists>ps. calls t' = calls t @ ps \<and> quiet ps)"

definition post :: "'a option \<Rightarrow> ('a \<Rightarrow> bool) \<Rightarrow> bool" where
  "post m Q = (\<forall>x. m = Some x \<longrightarrow> Q x)"

subsection \<open>Node keys\<close>

text \<open>The keys of a node and of all its descendants, in document order.\<close>

fun nodeKeys :: "node \<Rightarrow> key list" and nodeKeysIn :: "node list \<Rightarrow> key list" where
  "nodeKeys (TextNode k cs) = [k]"
| "nodeKeys (Container kd k ty v ns) = k # nodeKeysIn ns"
| "nodeKeysIn [] = []"
| "nodeKeysIn (n # ns) = nodeKeys n @ nodeKeysIn ns"





text \<open>The proper descendants of a node, in document order.\<close>

fun descendants :: "node \<Rightarrow> node list" and descendantsIn :: "node list \<Rightarrow> node list" where
  "descendants (TextNode k cs) = []"
| "descendants (Container kd k ty v ns) = descendantsIn ns"
| "descendantsIn [] = []"
| "descendantsIn (n # ns) = n # descendants n @ descendantsIn ns"


subsection \<open>Documents\<close>

text \<open>A schema whose repair pass changes no document.\<close>

definition inert :: "schema \<Rightarrow> bool" where
  "inert S = (\<forall>k p. S k p = p)"

text \<open>A function applied to every text leaf of a node.\<close>

fun mapTexts :: "(node \<Rightarrow> node) \<Rightarrow> node \<Rightarrow> node" and mapTextsIn :: "(node \<Rightarrow> node) \<Rightarrow> node list \<Rightarrow> node list" where
  "mapTexts f (TextNode k cs) = f (TextNode k cs)"
| "mapTexts f (Container kd k ty v ns) = Container kd k ty v (mapTextsIn f ns)"
| "mapTextsIn f [] = []"
| "mapTextsIn f (n # ns) = mapTexts f n # mapTextsIn f ns"

text \<open>
  A text leaf after a change of the marks on its interval, when its key is among the keys
  of the given leaves.
\<close>

definition markLeaf :: "(int \<Rightarrow> int \<Rightarrow> mark \<Rightarrow> character list \<Rightarrow> character list) \<Rightarrow> selection \<Rightarrow> mark \<Rightarrow> node list \<Rightarrow> node \<Rightarrow> node" where
  "markLeaf change r m texts n =
     (if key n \<in> set (map key texts)
      then TextNode (key n) (change (fst (leafInterval r n)) (snd (leafInterval r n)) m (characters n))
      else n)"

text \<open>A node with the children of its node \<open>k\<close> replaced.\<close>

definition replaceChildren :: "key \<Rightarrow> node list \<Rightarrow> node \<Rightarrow> node" where
  "replaceChildren k ns d = updateNode k (setNodes ns) d"

section \<open>Example documents\<close>

definition plain :: "string \<Rightarrow> character list" where
  "plain s = map (\<lambda>c. Character c []) s"

definition marked :: "mark \<Rightarrow> string \<Rightarrow> character list" where
  "marked m s = map (\<lambda>c. Character c [m]) s"

definition bold :: mark where
  "bold = Mark ''bold'' []"

text \<open>A schema whose repair pass changes nothing.\<close>

definition identity_schema :: schema where
  "identity_schema = (\<lambda>k p. p)"

definition paragraph_block :: "key \<Rightarrow> node list \<Rightarrow> node" where
  "paragraph_block k ns = Container block_kind k ''paragraph'' False ns"

text \<open>Three paragraphs \<open>abc\<close>, \<open>def\<close> (bold) and \<open>ghi\<close>.\<close>

definition three_blocks :: node where
  "three_blocks = Container document_kind 0 ''document'' False
     [paragraph_block 1 [TextNode 2 (plain ''abc'')],
      paragraph_block 3 [TextNode 4 (marked bold ''def'')],
      paragraph_block 5 [TextNode 6 (plain ''ghi'')]]"

definition three_blocks_transform :: transform where
  "three_blocks_transform = \<lparr>document = three_blocks, nextKey = 10, calls = []\<rparr>"

definition range_b_to_h :: selection where
  "range_b_to_h = \<lparr>anchorKey = 2, anchorOffset = 1, focusKey = 6, focusOffset = 2, isBackward = False\<rparr>"

definition caret_in_abc :: selection where
  "caret_in_abc = \<lparr>anchorKey = 2, anchorOffset = 1, focusKey = 2, focusOffset = 1, isBackward = False\<rparr>"

definition range_in_abc :: selection where
  "range_in_abc = \<lparr>anchorKey = 2, anchorOffset = 1, focusKey = 2, focusOffset = 2, isBackward = False\<rparr>"


text \<open>Two sibling paragraphs \<open>abc\<close> and \<open>def\<close>, and the range from the end of the first to the start of the second.\<close>

definition two_blocks :: node where
  "two_blocks = Container document_kind 0 ''document'' False
     [paragraph_block 1 [TextNode 2 (plain ''abc'')],
      paragraph_block 3 [TextNode 4 (plain ''def'')]]"

definition two_blocks_transform :: transform where
  "two_blocks_transform = \<lparr>document = two_blocks, nextKey = 10, calls = []\<rparr>"

definition range_abc_def :: selection where
  "range_abc_def = \<lparr>anchorKey = 2, anchorOffset = 3, focusKey = 4, focusOffset = 0, isBackward = False\<rparr>"

text \<open>The document after the two splits at the edges of \<open>range_abc_def\<close>.\<close>

definition two_blocks_split :: node where
  "two_blocks_split = Container document_kind 0 ''document'' False
     [paragraph_block 1 [TextNode 2 (plain ''abc'')],
      paragraph_block 11 [TextNode 10 []],
      paragraph_block 3 [TextNode 4 []],
      paragraph_block 13 [TextNode 12 (plain ''def'')]]"

definition two_blocks_split1 :: transform where
  "two_blocks_split1 = \<lparr>document = Container document_kind 0 ''document'' False
     [paragraph_block 1 [TextNode 2 (plain ''abc'')],
      paragraph_block 11 [TextNode 10 []],
      paragraph_block 3 [TextNode 4 (plain ''def'')]], nextKey = 12,
     calls = [SplitNodeByKey 1 3 OPTS]\<rparr>"

definition two_blocks_split2 :: transform where
  "two_blocks_split2 = \<lparr>document = two_blocks_split, nextKey = 14,
     calls = [SplitNodeByKey 1 3 OPTS, SplitNodeByKey 3 0 OPTS]\<rparr>"

definition merged_blocks :: node where
  "merged_blocks = Container document_kind 0 ''document'' False
     [paragraph_block 1 [TextNode 2 (plain ''abc''), TextNode 12 (plain ''def'')]]"

definition merged_transform :: transform where
  "merged_transform = \<lparr>document = merged_blocks, nextKey = 14,
     calls = [SplitNodeByKey 1 3 OPTS, SplitNodeByKey 3 0 OPTS,
              RemoveNodeByKey 11 OPTS, RemoveNodeByKey 3 OPTS,
              MoveNodeByKey 12 1 1 OPTS, RemoveNodeByKey 13 OPTS]\<rparr>"

definition new_block :: node where
  "new_block = paragraph_block 20 [TextNode 21 (plain ''new'')]"

definition range_intro_two :: selection where
  "range_intro_two = \<lparr>anchorKey = 2, anchorOffset = 1, focusKey = 7, focusOffset = 2, isBackward = False\<rparr>"





text \<open>
  A paragraph \<open>abc\<close> followed by a quote holding a list of the paragraphs \<open>def\<close> and
  \<open>ghi\<close>; the range from the end of \<open>abc\<close> to the point after \<open>d\<close>; the document
  after the two splits at the edges of that range; the trailing half of the quote; and the
  result of the deletion.
\<close>

definition quoted_list :: node where
  "quoted_list = Container document_kind 0 ''document'' False
     [paragraph_block 1 [TextNode 2 (plain ''abc'')],
      Container block_kind 3 ''quote'' False
        [Container block_kind 4 ''list'' False
           [paragraph_block 5 [TextNode 6 (plain ''def'')],
            paragraph_block 7 [TextNode 8 (plain ''ghi'')]]]]"

definition quoted_list_transform :: transform where
  "quoted_list_transform = \<lparr>document = quoted_list, nextKey = 20, calls = []\<rparr>"

definition range_abc_d :: selection where
  "range_abc_d = \<lparr>anchorKey = 2, anchorOffset = 3, focusKey = 6, focusOffset = 1, isBackward = False\<rparr>"

definition quoted_list_split :: node where
  "quoted_list_split = Container document_kind 0 ''document'' False
     [paragraph_block 1 [TextNode 2 (plain ''abc'')],
      paragraph_block 21 [TextNode 20 []],
      Container block_kind 3 ''quote'' False
        [Container block_kind 4 ''list'' False [paragraph_block 5 [TextNode 6 (plain ''d'')]]],
      Container block_kind 25 ''quote'' False
        [Container block_kind 24 ''list'' False
           [paragraph_block 23 [TextNode 22 (plain ''ef'')],
            paragraph_block 7 [TextNode 8 (plain ''ghi'')]]]]"

definition trailing_quote :: node where
  "trailing_quote = Container block_kind 25 ''quote'' False
        [Container block_kind 24 ''list'' False
           [paragraph_block 23 [TextNode 22 (plain ''ef'')],
            paragraph_block 7 [TextNode 8 (plain ''ghi'')]]]"

definition quoted_list_deleted :: transform where
  "quoted_list_deleted = \<lparr>document = Container document_kind 0 ''document'' False
       [paragraph_block 1 [TextNode 2 (plain ''abc''), TextNode 22 (plain ''ef'')]],
     nextKey = 26,
     calls = [SplitNodeByKey 1 3 OPTS, SplitNodeByKey 3 1 OPTS,
              RemoveNodeByKey 21 OPTS, RemoveNodeByKey 3 OPTS,
              MoveNodeByKey 22 1 1 OPTS, RemoveNodeByKey 25 OPTS, NormalizeNodeByKey 0]\<rparr>"

text \<open>A leaf \<open>abc\<close> that is bold on \<open>a\<close> only, and two ranges that span a leaf carrying the mark outside the range.\<close>

definition partly_bold :: node where
  "partly_bold = Container document_kind 0 ''document'' False
     [paragraph_block 1 [TextNode 2 (marked bold ''a'' @ plain ''bc'')]]"

definition partly_bold_transform :: transform where
  "partly_bold_transform = \<lparr>document = partly_bold, nextKey = 10, calls = []\<rparr>"

definition range_bc :: selection where
  "range_bc = \<lparr>anchorKey = 2, anchorOffset = 1, focusKey = 2, focusOffset = 3, isBackward = False\<rparr>"

definition range_b_to_d0 :: selection where
  "range_b_to_d0 = \<lparr>anchorKey = 2, anchorOffset = 1, focusKey = 4, focusOffset = 0, isBackward = False\<rparr>"

text \<open>The three paragraphs after bold has been added to, and removed from, \<open>range_b_to_h\<close>.\<close>

definition three_blocks_marked :: node where
  "three_blocks_marked = Container document_kind 0 ''document'' False
     [paragraph_block 1 [TextNode 2 (plain ''a'' @ marked bold ''bc'')],
      paragraph_block 3 [TextNode 4 (marked bold ''def'')],
      paragraph_block 5 [TextNode 6 (marked bold ''gh'' @ plain ''i'')]]"

definition three_blocks_unmarked :: node where
  "three_blocks_unmarked = Container document_kind 0 ''document'' False
     [paragraph_block 1 [TextNode 2 (plain ''abc'')],
      paragraph_block 3 [TextNode 4 (plain ''def'')],
      paragraph_block 5 [TextNode 6 (plain ''ghi'')]]"

text \<open>A void block and an empty block as first blocks, a caret, and the documents after the insertion of \<open>new_block\<close>.\<close>

definition image_block :: node where
  "image_block = Container block_kind 1 ''image'' True [TextNode 2 []]"

definition void_first :: transform where
  "void_first = \<lparr>document = Container document_kind 0 ''document'' False
      [image_block, paragraph_block 3 [TextNode 4 (plain ''def'')]], nextKey = 10, calls = []\<rparr>"

definition empty_first :: transform where
  "empty_first = \<lparr>document = Container document_kind 0 ''document'' False
      [paragraph_block 1 [TextNode 2 []], paragraph_block 3 [TextNode 4 (plain ''def'')]], nextKey = 10, calls = []\<rparr>"

definition caret_at :: "key \<Rightarrow> int \<Rightarrow> selection" where
  "caret_at k off = \<lparr>anchorKey = k, anchorOffset = off, focusKey = k, focusOffset = off, isBackward = False\<rparr>"

definition block_after_split :: node where
  "block_after_split = Container document_kind 0 ''document'' False
     [paragraph_block 1 [TextNode 2 (plain ''a'')],
      new_block,
      paragraph_block 11 [TextNode 10 (plain ''bc'')],
      paragraph_block 3 [TextNode 4 (marked bold ''def'')],
      paragraph_block 5 [TextNode 6 (plain ''ghi'')]]"

definition block_after_delete :: node where
  "block_after_delete = Container document_kind 0 ''document'' False
     [paragraph_block 1 [TextNode 2 (plain ''a'')],
      new_block,
      paragraph_block 11 [TextNode 10 (plain ''c'')],
      paragraph_block 3 [TextNode 4 (marked bold ''def'')],
      paragraph_block 5 [TextNode 6 (plain ''ghi'')]]"

definition block_after_void :: node where
  "block_after_void = Container document_kind 0 ''document'' False
     [image_block, new_block, paragraph_block 3 [TextNode 4 (plain ''def'')]]"

definition block_for_empty :: node where
  "block_for_empty = Container document_kind 0 ''document'' False
     [new_block, paragraph_block 3 [TextNode 4 (plain ''def'')]]"

definition block_before_def :: node where
  "block_before_def = Container document_kind 0 ''document'' False
     [paragraph_block 1 [TextNode 2 (plain ''abc'')],
      new_block,
      paragraph_block 3 [TextNode 4 (marked bold ''def'')],
      paragraph_block 5 [TextNode 6 (plain ''ghi'')]]"

definition block_after_def :: node where
  "block_after_def = Container document_kind 0 ''document'' False
     [paragraph_block 1 [TextNode 2 (plain ''abc'')],
      paragraph_block 3 [TextNode 4 (marked bold ''def'')],
      new_block,
      paragraph_block 5 [TextNode 6 (plain ''ghi'')]]"

section \<open>Properties\<close>

subsection \<open>The calls of the primitives\<close>

lemma normalizeNodeByKey_calls:
  "normalizeNodeByKey S k t = Some t' \<Longrightarrow> calls t' = calls t @ [NormalizeNodeByKey k]"
  by (auto simp: normalizeNodeByKey_def split: prod.splits)

lemma normalizeParent_calls:
  assumes "normalizeParent S d k opts t = Some t'"
  shows "\<exists>cs. calls t' = calls t @ cs \<and> (\<forall>c\<in>set cs. isNormalizeCall c) \<and> (\<not> normalize_or_true opts \<longrightarrow> cs = [])"
  using assms
  by (auto simp: normalizeParent_def split: if_splits option.splits dest!: normalizeNodeByKey_calls)

lemma updateText_calls:
  assumes "updateText S k f c opts t = Some t'"
  shows "\<exists>cs. calls t' = calls t @ c # cs \<and> (\<forall>c\<in>set cs. isNormalizeCall c) \<and> (\<not> normalize_or_true opts \<longrightarrow> cs = [])"
  using assms
  by (auto simp: updateText_def split: option.splits node.splits dest!: normalizeParent_calls)

lemma forEach_primitiveCalls:
  assumes step: "\<And>x i t t'. f x i t = Some t' \<Longrightarrow> \<exists>cs. calls t' = calls t @ g x # cs \<and> (\<forall>c\<in>set cs. isNormalizeCall c)"
    and g: "\<And>x. \<not> isNormalizeCall (g x)"
  shows "forEach f xs i t = Some t' \<Longrightarrow> \<exists>cs. calls t' = calls t @ cs \<and> filter (\<lambda>c. \<not> isNormalizeCall c) cs = map g xs"
proof (induction xs arbitrary: i t)
  case Nil
  then show ?case by simp
next
  case (Cons x xs)
  from Cons.prems obtain t1 where t1: "f x i t = Some t1" and rest: "forEach f xs (i + 1) t1 = Some t'"
    by (auto split: option.splits)
  from step[OF t1] obtain cs1 where cs1: "calls t1 = calls t @ g x # cs1" "\<forall>c\<in>set cs1. isNormalizeCall c"
    by blast
  from Cons.IH[OF rest] obtain cs2 where cs2: "calls t' = calls t1 @ cs2" "filter (\<lambda>c. \<not> isNormalizeCall c) cs2 = map g xs"
    by blast
  have "filter (\<lambda>c. \<not> isNormalizeCall c) cs1 = []" using cs1(2) by (simp add: filter_empty_conv)
  then have "filter (\<lambda>c. \<not> isNormalizeCall c) (g x # cs1 @ cs2) = map g (x # xs)"
    using cs2(2) g by simp
  moreover have "calls t' = calls t @ (g x # cs1 @ cs2)" using cs1(1) cs2(1) by simp
  ultimately show ?case by blast
qed

lemma primitiveCalls_append:
  "calls t' = calls t @ cs \<Longrightarrow> primitiveCalls t t' = filter (\<lambda>c. \<not> isNormalizeCall c) cs"
  by (simp add: primitiveCalls_def newCalls_def)

lemma leafInterval_eq:
  "leafInterval r tx = ((if key tx = startKey r then startOffset r else 0),
      (if key tx = startKey r \<and> key tx = endKey r then endOffset r - startOffset r
       else if key tx = endKey r then endOffset r else node_length tx))"
  by (simp add: leafInterval_def Let_def)

lemma collapse_simps:
  "isCollapsed (collapseToStart r)" "isCollapsed (collapseToEnd r)"
  "startKey (collapseToStart r) = startKey r" "startOffset (collapseToStart r) = startOffset r"
  "startKey (collapseToEnd r) = endKey r" "startOffset (collapseToEnd r) = endOffset r"
  "isCollapsed (moveForward n c) = isCollapsed c"
  "startKey (moveForward n c) = startKey c" "startOffset (moveForward n c) = startOffset c + n"
  by (auto simp: isCollapsed_def collapseToStart_def collapseToEnd_def startKey_def startOffset_def
      moveForward_def endKey_def endOffset_def)


subsection \<open>Collapsed ranges\<close>

text \<open>
  Claim C9. For every collapsed range, \<^verbatim>\<open>addMarkAtRange\<close>, \<^verbatim>\<open>removeMarkAtRange\<close>,
  \<^verbatim>\<open>toggleMarkAtRange\<close> and \<^verbatim>\<open>deleteAtRange\<close> return at once: no primitive is applied
  and the transform, with its document, is the one that was passed in.
\<close>

theorem C9_collapsed_noop:
  assumes "isCollapsed r"
  shows "addMarkAtRange S r m opts t = Some t \<and> removeMarkAtRange S r m opts t = Some t
       \<and> toggleMarkAtRange S r m opts t = Some t \<and> deleteAtRange S r opts t = Some t"
  using assms
  by (simp add: addMarkAtRange_def removeMarkAtRange_def toggleMarkAtRange_def deleteAtRange_def)

theorem C9_collapsed_noop_witness:
  "isCollapsed caret_in_abc
   \<and> addMarkAtRange identity_schema caret_in_abc bold no_options three_blocks_transform = Some three_blocks_transform
   \<and> removeMarkAtRange identity_schema caret_in_abc bold no_options three_blocks_transform = Some three_blocks_transform
   \<and> toggleMarkAtRange identity_schema caret_in_abc bold no_options three_blocks_transform = Some three_blocks_transform
   \<and> deleteAtRange identity_schema caret_in_abc no_options three_blocks_transform = Some three_blocks_transform"
proof -
  have h: "isCollapsed caret_in_abc"
    by (simp add: isCollapsed_def caret_in_abc_def)
  show ?thesis
    using h C9_collapsed_noop[OF h, of identity_schema bold no_options three_blocks_transform]
    by (rule conjI)
qed

subsection \<open>Marks\<close>

text \<open>
  Claim C3, as stated, fails: a mark on a spanned leaf does not suffice. In the leaf
  \<open>abc\<close> that is bold on \<open>a\<close> only, the range over \<open>bc\<close> spans a leaf that carries
  bold, and \<^verbatim>\<open>toggleMarkAtRange\<close> adds bold; the same holds for the range from \<open>b\<close> to
  the start of the bold leaf \<open>def\<close>, which spans that leaf without covering a character
  of it.
\<close>

theorem C3_toggle_any_leaf_counterexample:
  "isExpanded range_bc
   \<and> getTextsAtRange (document partly_bold_transform) range_bc = Some [TextNode 2 (marked bold ''a'' @ plain ''bc'')]
   \<and> bold \<in> set (concat (map char_marks (characters (TextNode 2 (marked bold ''a'' @ plain ''bc'')))))
   \<and> toggleMarkAtRange identity_schema range_bc bold no_options partly_bold_transform
       = addMarkAtRange identity_schema range_bc bold (with_normalize True) partly_bold_transform
   \<and> toggleMarkAtRange identity_schema range_bc bold no_options partly_bold_transform
       \<noteq> removeMarkAtRange identity_schema range_bc bold (with_normalize True) partly_bold_transform
   \<and> map_option document (toggleMarkAtRange identity_schema range_bc bold no_options partly_bold_transform)
       = Some (Container document_kind 0 ''document'' False [paragraph_block 1 [TextNode 2 (marked bold ''abc'')]])
   \<and> isExpanded range_b_to_d0
   \<and> getTextsAtRange (document three_blocks_transform) range_b_to_d0
       = Some [TextNode 2 (plain ''abc''), TextNode 4 (marked bold ''def'')]
   \<and> toggleMarkAtRange identity_schema range_b_to_d0 bold no_options three_blocks_transform
       = addMarkAtRange identity_schema range_b_to_d0 bold (with_normalize True) three_blocks_transform
   \<and> toggleMarkAtRange identity_schema range_b_to_d0 bold no_options three_blocks_transform
       \<noteq> removeMarkAtRange identity_schema range_b_to_d0 bold (with_normalize True) three_blocks_transform"
  by code_simp

text \<open>
  Claim C3, amended. For an expanded range, \<^verbatim>\<open>toggleMarkAtRange\<close> applies
  \<^verbatim>\<open>removeMarkAtRange\<close> to the whole range if at least one character inside the range, in
  one of the spanned text leaves, carries a mark equal to the given one, and
  \<^verbatim>\<open>addMarkAtRange\<close> to the whole range otherwise; one such character suffices.
\<close>

theorem C3_toggle_mark_in_range:
  assumes "\<not> isCollapsed r" and "getTextsAtRange (document t) r = Some texts"
  shows "toggleMarkAtRange S r m opts t =
           (if \<exists>tx\<in>set texts. \<exists>c\<in>set (charactersInRange r tx). m \<in> set (char_marks c)
            then removeMarkAtRange S r m (with_normalize (normalize_or_true opts)) t
            else addMarkAtRange S r m (with_normalize (normalize_or_true opts)) t)"
  using assms
  by (auto simp: toggleMarkAtRange_def getMarksAtRange_def list_ex_iff Let_def)

theorem C3_toggle_mark_in_range_witness:
  "\<not> isCollapsed range_b_to_h
   \<and> getTextsAtRange (document three_blocks_transform) range_b_to_h
       = Some [TextNode 2 (plain ''abc''), TextNode 4 (marked bold ''def''), TextNode 6 (plain ''ghi'')]
   \<and> toggleMarkAtRange identity_schema range_b_to_h bold no_options three_blocks_transform
       = removeMarkAtRange identity_schema range_b_to_h bold (with_normalize True) three_blocks_transform
   \<and> map_option document (toggleMarkAtRange identity_schema range_b_to_h bold no_options three_blocks_transform)
       = Some three_blocks_unmarked
   \<and> \<not> isCollapsed range_bc
   \<and> getTextsAtRange (document partly_bold_transform) range_bc
       = Some [TextNode 2 (marked bold ''a'' @ plain ''bc'')]
   \<and> toggleMarkAtRange identity_schema range_bc bold no_options partly_bold_transform
       = addMarkAtRange identity_schema range_bc bold (with_normalize True) partly_bold_transform
   \<and> map_option document (toggleMarkAtRange identity_schema range_bc bold no_options partly_bold_transform)
       = Some (Container document_kind 0 ''document'' False [paragraph_block 1 [TextNode 2 (marked bold ''abc'')]])"
proof -
  let ?texts = "[TextNode 2 (plain ''abc''), TextNode 4 (marked bold ''def''), TextNode 6 (plain ''ghi'')]"
  have h1: "\<not> isCollapsed range_b_to_h"
    by (simp add: isCollapsed_def range_b_to_h_def)
  have h2: "getTextsAtRange (document three_blocks_transform) range_b_to_h = Some ?texts"
    by code_simp
  have h3: "\<exists>tx\<in>set ?texts. \<exists>c\<in>set (charactersInRange range_b_to_h tx). bold \<in> set (char_marks c)"
    by code_simp
  have h4: "normalize_or_true no_options = True"
    by (simp add: normalize_or_true_def no_options_def)
  have c1: "toggleMarkAtRange identity_schema range_b_to_h bold no_options three_blocks_transform
       = removeMarkAtRange identity_schema range_b_to_h bold (with_normalize True) three_blocks_transform"
    using C3_toggle_mark_in_range[OF h1 h2, of identity_schema bold no_options] h3 h4 by simp
  have d1: "map_option document (toggleMarkAtRange identity_schema range_b_to_h bold no_options three_blocks_transform)
       = Some three_blocks_unmarked" by code_simp
  let ?leaf = "[TextNode 2 (marked bold ''a'' @ plain ''bc'')]"
  have g1: "\<not> isCollapsed range_bc" by code_simp
  have g2: "getTextsAtRange (document partly_bold_transform) range_bc = Some ?leaf" by code_simp
  have g3: "\<not> (\<exists>tx\<in>set ?leaf. \<exists>c\<in>set (charactersInRange range_bc tx). bold \<in> set (char_marks c))"
    by code_simp
  have c2: "toggleMarkAtRange identity_schema range_bc bold no_options partly_bold_transform
       = addMarkAtRange identity_schema range_bc bold (with_normalize True) partly_bold_transform"
    using C3_toggle_mark_in_range[OF g1 g2, of identity_schema bold no_options] g3 h4 by simp
  have d2: "map_option document (toggleMarkAtRange identity_schema range_bc bold no_options partly_bold_transform)
       = Some (Container document_kind 0 ''document'' False [paragraph_block 1 [TextNode 2 (marked bold ''abc'')]])"
    by code_simp
  show ?thesis by (intro conjI h1 h2 c1 d1 g1 g2 c2 d2)
qed

subsection \<open>Text insertion\<close>

text \<open>
  Claim C4. \<^verbatim>\<open>insertTextAtRange\<close> is to skip the repair pass for a collapsed range when the
  caller gives no normalize option. At this input, a caret inside \<open>abc\<close> and an empty
  options object, the operation hands the primitive an undefined normalize flag, and the
  primitive's default runs the repair pass on the parent block.
\<close>

theorem C4_unspecified_normalize_runs:
  "isCollapsed caret_in_abc \<and>
   map_option calls (insertTextAtRange identity_schema caret_in_abc ''x'' [] no_options three_blocks_transform)
     = Some [InsertTextByKey 2 1 ''x'' [] \<lparr>opt_normalize = None\<rparr>, NormalizeNodeByKey 1]"
  by code_simp



lemma splitNodeByKey_calls:
  assumes "splitNodeByKey S k off opts t = Some t'"
  shows "\<exists>cs. calls t' = calls t @ SplitNodeByKey k off opts # cs \<and> (\<forall>c\<in>set cs. isNormalizeCall c)
             \<and> (\<not> normalize_or_true opts \<longrightarrow> cs = [])"
  using assms
  by (auto simp: splitNodeByKey_def split: option.splits prod.splits dest!: normalizeParent_calls)

lemma removeNodeByKey_calls:
  assumes "removeNodeByKey S k opts t = Some t'"
  shows "\<exists>cs. calls t' = calls t @ RemoveNodeByKey k opts # cs \<and> (\<forall>c\<in>set cs. isNormalizeCall c)
             \<and> (\<not> normalize_or_true opts \<longrightarrow> cs = [])"
  using assms
  by (auto simp: removeNodeByKey_def split: option.splits dest!: normalizeParent_calls)

lemma insertNodeByKey_calls:
  assumes "insertNodeByKey S pk i n opts t = Some t'"
  shows "\<exists>cs. calls t' = calls t @ InsertNodeByKey pk i n opts # cs \<and> (\<forall>c\<in>set cs. isNormalizeCall c)
             \<and> (\<not> normalize_or_true opts \<longrightarrow> cs = [])"
  using assms
  by (auto simp: insertNodeByKey_def Let_def split: option.splits if_splits dest!: normalizeNodeByKey_calls)

lemma moveNodeByKey_calls:
  assumes "moveNodeByKey S k nk i opts t = Some t'"
  shows "\<exists>cs. calls t' = calls t @ MoveNodeByKey k nk i opts # cs \<and> (\<forall>c\<in>set cs. isNormalizeCall c)
             \<and> (\<not> normalize_or_true opts \<longrightarrow> cs = [])"
  using assms
  by (auto simp: moveNodeByKey_def Let_def split: option.splits if_splits dest!: normalizeNodeByKey_calls)

lemma OPTS_simps: "normalize_or_true OPTS = False" "normalize_or_true (with_normalize b) = b"
  "normalize_or_true no_options = True"
  by (simp_all add: normalize_or_true_def OPTS_def with_normalize_def no_options_def)

lemma forEach_calls_indexed:
  assumes step: "\<And>x i t t'. f x i t = Some t' \<Longrightarrow> calls t' = calls t @ [g x i]"
  shows "forEach f xs i t = Some t' \<Longrightarrow> calls t' = calls t @ map (\<lambda>(x, j). g x j) (indexed xs i)"
proof (induction xs arbitrary: i t)
  case Nil
  then show ?case by simp
next
  case (Cons x xs)
  from Cons.prems obtain t1 where t1: "f x i t = Some t1" and rest: "forEach f xs (i + 1) t1 = Some t'"
    by (auto split: option.splits)
  from step[OF t1] Cons.IH[OF rest] show ?case by simp
qed

lemma getDescendant_key:
  "getDescendant n x = Some d \<Longrightarrow> key d = x"
  "getDescendantIn ns x = Some d \<Longrightarrow> key d = x"
  by (induction n x and ns x rule: getDescendant_getDescendantIn.induct)
     (auto split: if_splits option.splits)

lemma map_indexed_const: "map (\<lambda>(x, j). h x) (indexed xs i) = map h xs"
  by (induction xs arbitrary: i) auto

lemma splitNodeByKey_OPTS:
  "splitNodeByKey S k off OPTS t = Some t' \<Longrightarrow> calls t' = calls t @ [SplitNodeByKey k off OPTS]"
  by (auto dest!: splitNodeByKey_calls simp: OPTS_simps)

lemma removeNodeByKey_OPTS:
  "removeNodeByKey S k OPTS t = Some t' \<Longrightarrow> calls t' = calls t @ [RemoveNodeByKey k OPTS]"
  by (auto dest!: removeNodeByKey_calls simp: OPTS_simps)

lemma insertNodeByKey_OPTS:
  "insertNodeByKey S pk i n OPTS t = Some t' \<Longrightarrow> calls t' = calls t @ [InsertNodeByKey pk i n OPTS]"
  by (auto dest!: insertNodeByKey_calls simp: OPTS_simps)

lemma moveNodeByKey_OPTS:
  "moveNodeByKey S k nk i OPTS t = Some t' \<Longrightarrow> calls t' = calls t @ [MoveNodeByKey k nk i OPTS]"
  by (auto dest!: moveNodeByKey_calls simp: OPTS_simps)

lemma forEach_remove_OPTS:
  "forEach (\<lambda>child _. removeNodeByKey S (key child) OPTS) xs i t = Some t'
   \<Longrightarrow> calls t' = calls t @ map (\<lambda>c. RemoveNodeByKey (key c) OPTS) xs"
  using forEach_calls_indexed[where f="\<lambda>child _. removeNodeByKey S (key child) OPTS"
      and g="\<lambda>c _. RemoveNodeByKey (key c) OPTS", OF removeNodeByKey_OPTS]
  by (simp add: map_indexed_const)

lemma forEach_move_OPTS:
  "forEach (\<lambda>child i. moveNodeByKey S (key child) (nk child) (ni child i) OPTS) xs i t = Some t'
   \<Longrightarrow> calls t' = calls t @ map (\<lambda>(c, j). MoveNodeByKey (key c) (nk c) (ni c j) OPTS) (indexed xs i)"
  using forEach_calls_indexed[where f="\<lambda>child i. moveNodeByKey S (key child) (nk child) (ni child i) OPTS"
      and g="\<lambda>c j. MoveNodeByKey (key c) (nk c) (ni c j) OPTS", OF moveNodeByKey_OPTS]
  by simp

lemma forEach_insert_OPTS:
  "forEach (\<lambda>n i. insertNodeByKey S pk (ni i) n OPTS) xs i t = Some t'
   \<Longrightarrow> calls t' = calls t @ map (\<lambda>(c, j). InsertNodeByKey pk (ni j) c OPTS) (indexed xs i)"
  using forEach_calls_indexed[where f="\<lambda>n i. insertNodeByKey S pk (ni i) n OPTS"
      and g="\<lambda>c j. InsertNodeByKey pk (ni j) c OPTS", OF insertNodeByKey_OPTS]
  by simp





lemma key_setNodes [simp]: "key (setNodes ns n) = key n"
  by (cases n) auto




subsection \<open>Deletion across blocks\<close>

text \<open>
  The calls of a deletion across blocks. Take an expanded range whose ends are in different text leaves. With the
  common ancestor, its children holding the two ends and the offsets of the ends inside
  them named as the code computes them, and the same queries repeated on the document
  after the two splits, \<^verbatim>\<open>deleteAtRange\<close> makes exactly these calls when the block of the
  start leaf and the block of the text after the end leaf differ: the two splits at the
  edges; the removal of every child of the ancestor after the child holding the start key,
  up to and including the child still holding the end key (the leading half of the end
  split), so of all children between the leading half of the start split and the trailing
  half of the end split; the move of every child of the trailing block, in order, to the
  positions that follow the children of the leading block; the removal of the furthest
  ancestor of the trailing block that has a single child, or of the trailing block itself
  when there is none; and one normalization of the ancestor if requested. All primitives
  get \<open>OPTS\<close>. On the sibling paragraphs \<open>abc\<close> and \<open>def\<close>, with the range from the end
  of the first to the start of the second, the result is the single paragraph \<open>abcdef\<close>.
\<close>

theorem deleteAtRange_cross_calls:
  "(deleteAtRange S r opts t = Some t' \<and> \<not> isCollapsed r \<and> startKey r \<noteq> endKey r
    \<and> getCommonAncestor (document t) (startKey r) (endKey r) = Some ancestor0
    \<and> getHighestChild ancestor0 (startKey r) = Some startChild0
    \<and> getHighestChild ancestor0 (endKey r) = Some endChild0
    \<and> (if kind startChild0 = text_kind then Some 0 else getOffset startChild0 (startKey r)) = Some startBase
    \<and> (if kind endChild0 = text_kind then Some 0 else getOffset endChild0 (endKey r)) = Some endBase
    \<and> splitNodeByKey S (key startChild0) (startBase + startOffset r) OPTS t = Some t1
    \<and> splitNodeByKey S (key endChild0) (endBase + endOffset r) OPTS t1 = Some t2
    \<and> getCommonAncestor (document t2) (startKey r) (endKey r) = Some ancestor
    \<and> getHighestChild ancestor (startKey r) = Some startChild
    \<and> getHighestChild ancestor (endKey r) = Some endChild
    \<and> getClosestBlock (document t2) (startKey r) = Some (Some startBlock)
    \<and> getNextText (document t2) (endKey r) = Some nextText
    \<and> getClosestBlock (document t2) (key nextText) = Some (Some endBlock)
    \<and> key startBlock \<noteq> key endBlock
    \<and> getFurthest (document t2) (key endBlock) (\<lambda>p. length (nodes p) = 1) = Some furthest
    \<longrightarrow>
      newCalls t t' =
        [SplitNodeByKey (key startChild0) (startBase + startOffset r) OPTS,
         SplitNodeByKey (key endChild0) (endBase + endOffset r) OPTS]
        @ map (\<lambda>c. RemoveNodeByKey (key c) OPTS)
            (slice (indexOf (nodes ancestor) startChild + 1) (indexOf (nodes ancestor) endChild + 1)
               (nodes ancestor))
        @ map (\<lambda>(c, i). MoveNodeByKey (key c) (key startBlock) (int (length (nodes startBlock)) + i) OPTS)
            (indexed (nodes endBlock) 0)
        @ [RemoveNodeByKey (key (case furthest of Some p \<Rightarrow> p | None \<Rightarrow> endBlock)) OPTS]
        @ (if normalize_or_true opts then [NormalizeNodeByKey (key ancestor)] else []))
   \<and> deleteAtRange S range_abc_def OPTS two_blocks_transform = Some merged_transform
   \<and> getBlocks (document merged_transform)
        = [paragraph_block 1 [TextNode 2 (plain ''abc''), TextNode 12 (plain ''def'')]]
   \<and> node_text (document merged_transform) = ''abcdef''"
proof (intro conjI impI)
  assume a: "deleteAtRange S r opts t = Some t' \<and> \<not> isCollapsed r \<and> startKey r \<noteq> endKey r
    \<and> getCommonAncestor (document t) (startKey r) (endKey r) = Some ancestor0
    \<and> getHighestChild ancestor0 (startKey r) = Some startChild0
    \<and> getHighestChild ancestor0 (endKey r) = Some endChild0
    \<and> (if kind startChild0 = text_kind then Some 0 else getOffset startChild0 (startKey r)) = Some startBase
    \<and> (if kind endChild0 = text_kind then Some 0 else getOffset endChild0 (endKey r)) = Some endBase
    \<and> splitNodeByKey S (key startChild0) (startBase + startOffset r) OPTS t = Some t1
    \<and> splitNodeByKey S (key endChild0) (endBase + endOffset r) OPTS t1 = Some t2
    \<and> getCommonAncestor (document t2) (startKey r) (endKey r) = Some ancestor
    \<and> getHighestChild ancestor (startKey r) = Some startChild
    \<and> getHighestChild ancestor (endKey r) = Some endChild
    \<and> getClosestBlock (document t2) (startKey r) = Some (Some startBlock)
    \<and> getNextText (document t2) (endKey r) = Some nextText
    \<and> getClosestBlock (document t2) (key nextText) = Some (Some endBlock)
    \<and> key startBlock \<noteq> key endBlock
    \<and> getFurthest (document t2) (key endBlock) (\<lambda>p. length (nodes p) = 1) = Some furthest"
  let ?middles = "slice (indexOf (nodes ancestor) startChild + 1) (indexOf (nodes ancestor) endChild + 1)
               (nodes ancestor)"
  let ?lonely = "case furthest of Some p \<Rightarrow> p | None \<Rightarrow> endBlock"
  from a have del: "deleteAtRange S r opts t = Some t'" by simp
  from a have facts:
    "\<not> isCollapsed r" "startKey r \<noteq> endKey r"
    "getCommonAncestor (document t) (startKey r) (endKey r) = Some ancestor0"
    "getHighestChild ancestor0 (startKey r) = Some startChild0"
    "getHighestChild ancestor0 (endKey r) = Some endChild0"
    "(if kind startChild0 = text_kind then Some 0 else getOffset startChild0 (startKey r)) = Some startBase"
    "(if kind endChild0 = text_kind then Some 0 else getOffset endChild0 (endKey r)) = Some endBase"
    "splitNodeByKey S (key startChild0) (startBase + startOffset r) OPTS t = Some t1"
    "splitNodeByKey S (key endChild0) (endBase + endOffset r) OPTS t1 = Some t2"
    "getCommonAncestor (document t2) (startKey r) (endKey r) = Some ancestor"
    "getHighestChild ancestor (startKey r) = Some startChild"
    "getHighestChild ancestor (endKey r) = Some endChild"
    "getClosestBlock (document t2) (startKey r) = Some (Some startBlock)"
    "getNextText (document t2) (endKey r) = Some nextText"
    "getClosestBlock (document t2) (key nextText) = Some (Some endBlock)"
    "key startBlock \<noteq> key endBlock"
    "getFurthest (document t2) (key endBlock) (\<lambda>p. length (nodes p) = Suc 0) = Some furthest"
    by simp_all
  from del obtain t3 t4 t5 where
    rm: "forEach (\<lambda>child _. removeNodeByKey S (key child) OPTS) ?middles 0 t2 = Some t3" and
    mv: "forEach (\<lambda>child i. moveNodeByKey S (key child) (key startBlock)
                                   (int (length (nodes startBlock)) + i) OPTS) (nodes endBlock) 0 t3 = Some t4" and
    rl: "removeNodeByKey S (key ?lonely) OPTS t4 = Some t5" and
    nm: "(if normalize_or_true opts then normalizeNodeByKey S (key ancestor) t5 else Some t5) = Some t'"
    unfolding deleteAtRange_def Let_def
    by (auto simp: facts bind_eq_Some_conv)
  have c1: "calls t1 = calls t @ [SplitNodeByKey (key startChild0) (startBase + startOffset r) OPTS]"
    using a by (auto dest: splitNodeByKey_OPTS)
  have c2: "calls t2 = calls t1 @ [SplitNodeByKey (key endChild0) (endBase + endOffset r) OPTS]"
    using a by (auto dest: splitNodeByKey_OPTS)
  have c3: "calls t3 = calls t2 @ map (\<lambda>c. RemoveNodeByKey (key c) OPTS) ?middles"
    using rm by (rule forEach_remove_OPTS)
  have c4: "calls t4 = calls t3 @ map (\<lambda>(c, i). MoveNodeByKey (key c) (key startBlock)
                (int (length (nodes startBlock)) + i) OPTS) (indexed (nodes endBlock) 0)"
    using forEach_move_OPTS[where nk="\<lambda>_. key startBlock"
        and ni="\<lambda>_ i. int (length (nodes startBlock)) + i", OF mv] .
  have c5: "calls t5 = calls t4 @ [RemoveNodeByKey (key ?lonely) OPTS]"
    using rl by (rule removeNodeByKey_OPTS)
  have c6: "calls t' = calls t5 @ (if normalize_or_true opts then [NormalizeNodeByKey (key ancestor)] else [])"
    using nm by (auto split: if_splits dest!: normalizeNodeByKey_calls)
  show "newCalls t t' =
        [SplitNodeByKey (key startChild0) (startBase + startOffset r) OPTS,
         SplitNodeByKey (key endChild0) (endBase + endOffset r) OPTS]
        @ map (\<lambda>c. RemoveNodeByKey (key c) OPTS) ?middles
        @ map (\<lambda>(c, i). MoveNodeByKey (key c) (key startBlock) (int (length (nodes startBlock)) + i) OPTS)
            (indexed (nodes endBlock) 0)
        @ [RemoveNodeByKey (key ?lonely) OPTS]
        @ (if normalize_or_true opts then [NormalizeNodeByKey (key ancestor)] else [])"
    using c1 c2 c3 c4 c5 c6 by (simp add: newCalls_def)
next
  show "deleteAtRange S range_abc_def OPTS two_blocks_transform = Some merged_transform"
    by code_simp
next
  show "getBlocks (document merged_transform)
        = [paragraph_block 1 [TextNode 2 (plain ''abc''), TextNode 12 (plain ''def'')]]"
    by code_simp
next
  show "node_text (document merged_transform) = ''abcdef''"
    by code_simp
qed

theorem deleteAtRange_cross_calls_example:
  "deleteAtRange identity_schema range_abc_def OPTS two_blocks_transform = Some merged_transform
   \<and> \<not> isCollapsed range_abc_def \<and> startKey range_abc_def \<noteq> endKey range_abc_def
   \<and> splitNodeByKey identity_schema 1 3 OPTS two_blocks_transform = Some two_blocks_split1
   \<and> splitNodeByKey identity_schema 3 0 OPTS two_blocks_split1 = Some two_blocks_split2
   \<and> getClosestBlock two_blocks_split 2 = Some (Some (paragraph_block 1 [TextNode 2 (plain ''abc'')]))
   \<and> getNextText two_blocks_split 4 = Some (TextNode 12 (plain ''def''))
   \<and> getClosestBlock two_blocks_split 12 = Some (Some (paragraph_block 13 [TextNode 12 (plain ''def'')]))
   \<and> newCalls two_blocks_transform merged_transform =
        [SplitNodeByKey 1 3 OPTS, SplitNodeByKey 3 0 OPTS,
         RemoveNodeByKey 11 OPTS, RemoveNodeByKey 3 OPTS,
         MoveNodeByKey 12 1 1 OPTS, RemoveNodeByKey 13 OPTS]"
proof -
  let ?A = "paragraph_block 1 [TextNode 2 (plain ''abc'')]"
  let ?B = "paragraph_block 3 [TextNode 4 (plain ''def'')]"
  let ?B1 = "paragraph_block 3 [TextNode 4 []]"
  let ?B2 = "paragraph_block 13 [TextNode 12 (plain ''def'')]"
  have h1: "deleteAtRange identity_schema range_abc_def OPTS two_blocks_transform = Some merged_transform"
    by code_simp
  have h2: "\<not> isCollapsed range_abc_def" by code_simp
  have h3: "startKey range_abc_def \<noteq> endKey range_abc_def" by code_simp
  have h4: "getCommonAncestor (document two_blocks_transform) (startKey range_abc_def) (endKey range_abc_def)
              = Some two_blocks" by code_simp
  have h5: "getHighestChild two_blocks (startKey range_abc_def) = Some ?A" by code_simp
  have h6: "getHighestChild two_blocks (endKey range_abc_def) = Some ?B" by code_simp
  have h7: "(if kind ?A = text_kind then Some 0 else getOffset ?A (startKey range_abc_def)) = Some 0"
    by code_simp
  have h8: "(if kind ?B = text_kind then Some 0 else getOffset ?B (endKey range_abc_def)) = Some 0"
    by code_simp
  have h9: "splitNodeByKey identity_schema (key ?A) (0 + startOffset range_abc_def) OPTS two_blocks_transform
              = Some two_blocks_split1" by code_simp
  have h10: "splitNodeByKey identity_schema (key ?B) (0 + endOffset range_abc_def) OPTS two_blocks_split1
              = Some two_blocks_split2" by code_simp
  have h11: "getCommonAncestor (document two_blocks_split2) (startKey range_abc_def) (endKey range_abc_def)
              = Some two_blocks_split" by code_simp
  have h12: "getHighestChild two_blocks_split (startKey range_abc_def) = Some ?A" by code_simp
  have h13: "getHighestChild two_blocks_split (endKey range_abc_def) = Some ?B1" by code_simp
  have h14: "getClosestBlock (document two_blocks_split2) (startKey range_abc_def) = Some (Some ?A)"
    by code_simp
  have h15: "getNextText (document two_blocks_split2) (endKey range_abc_def) = Some (TextNode 12 (plain ''def''))"
    by code_simp
  have h16: "getClosestBlock (document two_blocks_split2) (key (TextNode 12 (plain ''def''))) = Some (Some ?B2)"
    by code_simp
  have h17: "key ?A \<noteq> key ?B2" by code_simp
  have h18: "getFurthest (document two_blocks_split2) (key ?B2) (\<lambda>p. length (nodes p) = 1) = Some None"
    by code_simp
  note inst = deleteAtRange_cross_calls[THEN conjunct1, rule_format,
      OF conjI[OF h1 conjI[OF h2 conjI[OF h3 conjI[OF h4 conjI[OF h5 conjI[OF h6 conjI[OF h7 conjI[OF h8
         conjI[OF h9 conjI[OF h10 conjI[OF h11 conjI[OF h12 conjI[OF h13 conjI[OF h14 conjI[OF h15
         conjI[OF h16 conjI[OF h17 h18]]]]]]]]]]]]]]]]]]
  have e: "[SplitNodeByKey (key ?A) (0 + startOffset range_abc_def) OPTS,
         SplitNodeByKey (key ?B) (0 + endOffset range_abc_def) OPTS]
        @ map (\<lambda>c. RemoveNodeByKey (key c) OPTS)
            (slice (indexOf (nodes two_blocks_split) ?A + 1) (indexOf (nodes two_blocks_split) ?B1 + 1)
               (nodes two_blocks_split))
        @ map (\<lambda>(c, i). MoveNodeByKey (key c) (key ?A) (int (length (nodes ?A)) + i) OPTS)
            (indexed (nodes ?B2) 0)
        @ [RemoveNodeByKey (key (case None of Some p \<Rightarrow> p | None \<Rightarrow> ?B2)) OPTS]
        @ (if normalize_or_true OPTS then [NormalizeNodeByKey (key two_blocks_split)] else [])
       = [SplitNodeByKey 1 3 OPTS, SplitNodeByKey 3 0 OPTS,
         RemoveNodeByKey 11 OPTS, RemoveNodeByKey 3 OPTS,
         MoveNodeByKey 12 1 1 OPTS, RemoveNodeByKey 13 OPTS]"
    by code_simp
  have k: "newCalls two_blocks_transform merged_transform =
        [SplitNodeByKey 1 3 OPTS, SplitNodeByKey 3 0 OPTS,
         RemoveNodeByKey 11 OPTS, RemoveNodeByKey 3 OPTS,
         MoveNodeByKey 12 1 1 OPTS, RemoveNodeByKey 13 OPTS]"
    using inst unfolding e .
  have s1: "splitNodeByKey identity_schema 1 3 OPTS two_blocks_transform = Some two_blocks_split1"
    by code_simp
  have s2: "splitNodeByKey identity_schema 3 0 OPTS two_blocks_split1 = Some two_blocks_split2"
    by code_simp
  have g1: "getClosestBlock two_blocks_split 2 = Some (Some ?A)" by code_simp
  have g2: "getNextText two_blocks_split 4 = Some (TextNode 12 (plain ''def''))" by code_simp
  have g3: "getClosestBlock two_blocks_split 12 = Some (Some ?B2)" by code_simp
  show ?thesis
    by (intro conjI h1 h2 h3 s1 s2 g1 g2 g3 k)
qed

text \<open>
  Claim C1 fails on a trailing block that has a sibling under a single-child ancestor.
  In \<open>quoted_list\<close> the range starts at the end of \<open>abc\<close> and ends after \<open>d\<close>, in
  another block. After the two splits the trailing block is the paragraph \<open>ef\<close>; its
  furthest ancestor with a single child is the trailing half of the quote, whose list
  still holds the paragraph \<open>ghi\<close>. \<^verbatim>\<open>deleteAtRange\<close> removes that quote after the move,
  and with it the paragraph \<open>ghi\<close>, which lies outside the range: the text \<open>abcdefghi\<close>
  becomes \<open>abcef\<close>, not \<open>abcefghi\<close>.
\<close>

theorem C1_deleteAtRange_removes_unemptied_ancestor:
  "node_text quoted_list = ''abcdefghi''
   \<and> isExpanded range_abc_d
   \<and> getClosestBlock quoted_list (startKey range_abc_d) = Some (Some (paragraph_block 1 [TextNode 2 (plain ''abc'')]))
   \<and> getClosestBlock quoted_list (endKey range_abc_d) = Some (Some (paragraph_block 5 [TextNode 6 (plain ''def'')]))
   \<and> Option.bind (splitNodeByKey identity_schema 1 3 OPTS quoted_list_transform)
        (splitNodeByKey identity_schema 3 1 OPTS)
       = Some \<lparr>document = quoted_list_split, nextKey = 26,
                calls = [SplitNodeByKey 1 3 OPTS, SplitNodeByKey 3 1 OPTS]\<rparr>
   \<and> getFurthest quoted_list_split 23 (\<lambda>p. length (nodes p) = 1) = Some (Some trailing_quote)
   \<and> node_text trailing_quote = ''efghi''
   \<and> deleteAtRange identity_schema range_abc_d no_options quoted_list_transform = Some quoted_list_deleted
   \<and> node_text (document quoted_list_deleted) = ''abcef''"
  by code_simp

subsection \<open>Wrapping blocks\<close>



subsection \<open>Batched normalization\<close>

lemma quietStep_refl [simp]: "quietStep t t"
  by (simp add: quietStep_def quiet_def)


lemma quietStep_nextKey [simp]: "quietStep (t\<lparr>nextKey := g\<rparr>) t' = quietStep t t'"
  by (simp add: quietStep_def)

lemma quietStep_nextKey2 [simp]: "quietStep t (t'\<lparr>nextKey := g\<rparr>) = quietStep t t'"
  by (simp add: quietStep_def)


















lemma post_None: "post None Q"
  by (simp add: post_def)



lemma post_case_option:
  "post a Q \<Longrightarrow> (\<And>x. post (f x) Q) \<Longrightarrow> post (case m of None \<Rightarrow> a | Some x \<Rightarrow> f x) Q"
  by (cases m) simp_all

lemma post_case_list:
  "post a Q \<Longrightarrow> (\<And>x xs. post (f x xs) Q) \<Longrightarrow> post (case l of [] \<Rightarrow> a | x # xs \<Rightarrow> f x xs) Q"
  by (cases l) simp_all











subsection \<open>Key uniqueness\<close>

lemma nodeKeysIn_append [simp]: "nodeKeysIn (xs @ ys) = nodeKeysIn xs @ nodeKeysIn ys"
  by (induction xs) auto

lemma nodeKeys_nodes: "nodeKeys n = key n # nodeKeysIn (nodes n)"
  by (cases n) auto











lemma getDescendant_None_iff:
  "(getDescendant n x = None) = (x \<notin> set (nodeKeysIn (nodes n)))"
  "(getDescendantIn ns x = None) = (x \<notin> set (nodeKeysIn ns))"
  by (induction n x and ns x rule: getDescendant_getDescendantIn.induct)
     (auto simp: nodeKeys_nodes split: option.splits)

lemma updateNode_id:
  "x \<notin> set (nodeKeys n) \<Longrightarrow> updateNode x f n = n"
  "x \<notin> set (nodeKeysIn ns) \<Longrightarrow> updateNodeIn x f ns = ns"
  by (induction x f n and x f ns rule: updateNode_updateNodeIn.induct) auto

lemma replace_id:
  "x \<notin> set (nodeKeys n) \<Longrightarrow> replaceDescendant x new n = n"
  "x \<notin> set (nodeKeysIn ns) \<Longrightarrow> replaceIn x new ns = ns"
  by (induction x new n and x new ns rule: replaceDescendant_replaceIn.induct)
     (auto simp: nodeKeys_nodes)

lemma updateNode_same_keys:
  "\<forall>p. nodeKeys (f p) = nodeKeys p \<Longrightarrow> nodeKeys (updateNode x f n) = nodeKeys n"
  "\<forall>p. nodeKeys (f p) = nodeKeys p \<Longrightarrow> nodeKeysIn (updateNodeIn x f ns) = nodeKeysIn ns"
  by (induction x f n and x f ns rule: updateNode_updateNodeIn.induct) auto




lemma getDescendant_Some_key:
  "getDescendant n x = Some m \<Longrightarrow> x \<in> set (nodeKeysIn (nodes n))"
  "getDescendantIn ns x = Some m \<Longrightarrow> x \<in> set (nodeKeysIn ns)"
  using getDescendant_None_iff(1)[of n x] getDescendant_None_iff(2)[of ns x] by auto


lemma mset_upt_Suc: "g \<le> g' \<Longrightarrow> mset [g..<Suc g'] = add_mset g' (mset [g..<g'])"
  by simp


















lemma keys_descendants:
  "map key (descendants n) = nodeKeysIn (nodes n)"
  "map key (descendantsIn ns) = nodeKeysIn ns"
  by (induction n and ns rule: descendants_descendantsIn.induct) (auto simp: nodeKeys_nodes)

lemma descendants_trans:
  "m \<in> set (descendants n) \<Longrightarrow> set (descendants m) \<subseteq> set (descendants n)"
  "m \<in> set (descendantsIn ns) \<Longrightarrow> set (descendants m) \<subseteq> set (descendantsIn ns)"
  by (induction n and ns rule: descendants_descendantsIn.induct) auto

lemma descendants_keys_subset:
  "m \<in> set (descendants n) \<Longrightarrow> mset (nodeKeys m) \<subseteq># mset (nodeKeysIn (nodes n))"
  "m \<in> set (descendantsIn ns) \<Longrightarrow> mset (nodeKeys m) \<subseteq># mset (nodeKeysIn ns)"
proof (induction n and ns rule: descendants_descendantsIn.induct)
  case (4 n ns)
  from 4(3) consider "m = n" | "m \<in> set (descendants n)" | "m \<in> set (descendantsIn ns)" by auto
  then show ?case
  proof cases
    case 1
    then show ?thesis by simp
  next
    case 2
    then have "mset (nodeKeys m) \<subseteq># mset (nodeKeysIn (nodes n))" by (rule 4(1))
    also have "\<dots> \<subseteq># mset (nodeKeys n)" by (simp add: nodeKeys_nodes)
    also have "\<dots> \<subseteq># mset (nodeKeysIn (n # ns))" by simp
    finally show ?thesis .
  next
    case 3
    then have "mset (nodeKeys m) \<subseteq># mset (nodeKeysIn ns)" by (rule 4(2))
    also have "\<dots> \<subseteq># mset (nodeKeysIn (n # ns))" by simp
    finally show ?thesis .
  qed
qed auto


lemma getAncestors_descendants:
  "getAncestors n x = Some as \<Longrightarrow>
     set as \<subseteq> insert n (set (descendants n)) \<and> set (tl as) \<subseteq> set (descendants n)
     \<and> (\<forall>a\<in>set as. x \<in> set (nodeKeysIn (nodes a))) \<and> x \<in> set (nodeKeys n)"
  "getAncestorsIn ns x = Some as \<Longrightarrow>
     set as \<subseteq> set (descendantsIn ns) \<and> (\<forall>a\<in>set as. x \<in> set (nodeKeysIn (nodes a)))
     \<and> x \<in> set (nodeKeysIn ns)"
proof (induction n x and ns x arbitrary: as and as rule: getAncestors_getAncestorsIn.induct)
  case (1 k cs x)
  then show ?case by (auto split: if_splits)
next
  case (2 kd k ty v ns x)
  show ?case
  proof (cases "k = x")
    case True
    with 2(2) show ?thesis by simp
  next
    case False
    with 2(2) obtain as' where as': "getAncestorsIn ns x = Some as'" and as: "as = Container kd k ty v ns # as'"
      by (auto split: option.splits)
    from 2(1)[OF False as'] show ?thesis unfolding as by auto
  qed
next
  case (3 x)
  then show ?case by simp
next
  case (4 n ns x)
  show ?case
  proof (cases "getAncestors n x")
    case None
    with 4(3) have "getAncestorsIn ns x = Some as" by simp
    from 4(2)[OF None this] show ?thesis by auto
  next
    case (Some bs)
    with 4(3) have "as = bs" by simp
    with 4(1)[of as] Some show ?thesis by auto
  qed
qed

lemma getDescendant_descendants:
  "m \<in> set (descendants n) \<Longrightarrow> distinct (nodeKeysIn (nodes n)) \<Longrightarrow> getDescendant n (key m) = Some m"
  "m \<in> set (descendantsIn ns) \<Longrightarrow> distinct (nodeKeysIn ns) \<Longrightarrow> getDescendantIn ns (key m) = Some m"
proof (induction n and ns rule: descendants_descendantsIn.induct)
  case (4 n ns)
  from 4(4) have dn: "distinct (nodeKeysIn (nodes n))" and dns: "distinct (nodeKeysIn ns)"
    and kn: "key n \<notin> set (nodeKeysIn (nodes n))"
    and disj: "set (nodeKeys n) \<inter> set (nodeKeysIn ns) = {}" by (auto simp: nodeKeys_nodes)
  from 4(3) consider "m = n" | "m \<noteq> n" "m \<in> set (descendants n)"
    | "m \<noteq> n" "m \<notin> set (descendants n)" "m \<in> set (descendantsIn ns)" by auto
  then show ?case
  proof cases
    case 1
    then show ?thesis by simp
  next
    case 2
    then have "key m \<in> set (nodeKeysIn (nodes n))"
      using keys_descendants(1)[of n] by (metis image_eqI set_map)
    with kn have "key n \<noteq> key m" by auto
    moreover have "getDescendant n (key m) = Some m" using 2(2) dn by (rule 4(1))
    ultimately show ?thesis by simp
  next
    case 3
    then have "key m \<in> set (nodeKeysIn ns)"
      using keys_descendants(2)[of ns] by (metis image_eqI set_map)
    with disj have nk: "key m \<notin> set (nodeKeys n)" by auto
    then have "key n \<noteq> key m" "getDescendant n (key m) = None"
      by (auto simp: nodeKeys_nodes getDescendant_None_iff)
    moreover have "getDescendantIn ns (key m) = Some m" using 3(3) dns by (rule 4(2))
    ultimately show ?thesis by simp
  qed
qed auto
















subsection \<open>Marks in the document\<close>

lemma normalizeNodeByKey_inert:
  "inert S \<Longrightarrow> normalizeNodeByKey S k t = Some t' \<Longrightarrow> document t' = document t \<and> nextKey t' = nextKey t"
  by (auto simp: inert_def normalizeNodeByKey_def)

lemma normalizeParent_inert:
  "inert S \<Longrightarrow> normalizeParent S d k opts t = Some t' \<Longrightarrow> document t' = document t \<and> nextKey t' = nextKey t"
  by (auto simp: normalizeParent_def split: if_splits option.splits dest: normalizeNodeByKey_inert)

lemma updateText_document:
  assumes "inert S" and "updateText S k f c opts t = Some t'"
  shows "\<exists>cs. getDescendant (document t) k = Some (TextNode k cs) \<and>
           document t' = updateNode k (\<lambda>n. TextNode (key n) (f (characters n))) (document t)"
proof -
  from assms(2) obtain tk cs t1 where g: "getDescendant (document t) k = Some (TextNode tk cs)"
    and t1: "t1 = t\<lparr>document := updateNode k (\<lambda>n. TextNode (key n) (f (characters n))) (document t),
               calls := calls t @ [c]\<rparr>"
    and n: "normalizeParent S (document t) k opts t1 = Some t'"
    by (auto simp: updateText_def split: option.splits node.splits)
  from getDescendant_key(1)[OF g] have "tk = k" by simp
  moreover from normalizeParent_inert[OF assms(1) n] have "document t' = document t1" by simp
  ultimately show ?thesis using g t1 by simp
qed

lemma mapTexts_id:
  "(\<forall>k cs. k \<in> set (nodeKeys n) \<longrightarrow> f (TextNode k cs) = TextNode k cs) \<Longrightarrow> mapTexts f n = n"
  "(\<forall>k cs. k \<in> set (nodeKeysIn ns) \<longrightarrow> f (TextNode k cs) = TextNode k cs) \<Longrightarrow> mapTextsIn f ns = ns"
  by (induction f n and f ns rule: mapTexts_mapTextsIn.induct) auto

lemma updateNode_mapTexts:
  "distinct (nodeKeys n) \<Longrightarrow> getDescendant n x = Some (TextNode x cs) \<Longrightarrow>
     updateNode x g n = mapTexts (\<lambda>n. if key n = x then g n else n) n"
  "distinct (nodeKeysIn ns) \<Longrightarrow> getDescendantIn ns x = Some (TextNode x cs) \<Longrightarrow>
     updateNodeIn x g ns = mapTextsIn (\<lambda>n. if key n = x then g n else n) ns"
proof (induction x g n and x g ns rule: updateNode_updateNodeIn.induct)
  case (1 x f k cs)
  then show ?case by simp
next
  case (2 x f kd k ty v ns)
  from 2(3) have "x \<in> set (nodeKeysIn ns)" by (auto dest: getDescendant_Some_key(2))
  with 2(2) have "k \<noteq> x" by auto
  with 2 show ?case by simp
next
  case (3 x f)
  then show ?case by simp
next
  case (4 x f n ns)
  let ?F = "\<lambda>n. if key n = x then f n else n"
  from 4(3) have dn: "distinct (nodeKeys n)" and dns: "distinct (nodeKeysIn ns)"
    and disj: "set (nodeKeys n) \<inter> set (nodeKeysIn ns) = {}" by auto
  show ?case
  proof (cases "x \<in> set (nodeKeys n)")
    case True
    then have notin: "x \<notin> set (nodeKeysIn ns)" using disj by auto
    then have r1: "updateNodeIn x f ns = ns" by (rule updateNode_id)
    from notin have r2: "mapTextsIn ?F ns = ns" by (intro mapTexts_id) auto
    have "updateNode x f n = mapTexts ?F n"
    proof (cases "key n = x")
      case True
      with 4(4) have "n = TextNode x cs" by simp
      then show ?thesis by simp
    next
      case False
      with True have "getDescendant n x \<noteq> None"
        by (simp add: getDescendant_None_iff nodeKeys_nodes)
      with 4(4) False have "getDescendant n x = Some (TextNode x cs)" by auto
      with dn show ?thesis by (rule 4(1))
    qed
    with r1 r2 show ?thesis by simp
  next
    case False
    then have r1: "updateNode x f n = n" by (rule updateNode_id)
    from False have r2: "mapTexts ?F n = n" by (intro mapTexts_id) auto
    from False have "key n \<noteq> x" "getDescendant n x = None"
      by (auto simp: nodeKeys_nodes getDescendant_None_iff)
    with 4(4) have "getDescendantIn ns x = Some (TextNode x cs)" by auto
    with dns have "updateNodeIn x f ns = mapTextsIn ?F ns" by (rule 4(2))
    with r1 r2 show ?thesis by simp
  qed
qed

lemma mapTexts_comp:
  "\<forall>k cs. \<exists>k' cs'. g (TextNode k cs) = TextNode k' cs' \<Longrightarrow>
     mapTexts f (mapTexts g n) = mapTexts (\<lambda>n. f (g n)) n"
  "\<forall>k cs. \<exists>k' cs'. g (TextNode k cs) = TextNode k' cs' \<Longrightarrow>
     mapTextsIn f (mapTextsIn g ns) = mapTextsIn (\<lambda>n. f (g n)) ns"
proof (induction g n and g ns rule: mapTexts_mapTextsIn.induct)
  case (1 g k cs)
  then obtain k' cs' where "g (TextNode k cs) = TextNode k' cs'" by blast
  then show ?case by simp
qed auto

lemma mapTexts_cong:
  "(\<And>k cs. TextNode k cs \<in> set (n # descendants n) \<Longrightarrow> f (TextNode k cs) = g (TextNode k cs)) \<Longrightarrow>
     mapTexts f n = mapTexts g n"
  "(\<And>k cs. TextNode k cs \<in> set (descendantsIn ns) \<Longrightarrow> f (TextNode k cs) = g (TextNode k cs)) \<Longrightarrow>
     mapTextsIn f ns = mapTextsIn g ns"
proof (induction f n and f ns rule: mapTexts_mapTextsIn.induct)
  case (4 f n ns)
  have "mapTexts f n = mapTexts g n"
  proof (rule 4(1))
    fix k cs assume "TextNode k cs \<in> set (n # descendants n)"
    then have "TextNode k cs \<in> set (descendantsIn (n # ns))" by auto
    then show "f (TextNode k cs) = g (TextNode k cs)" by (rule 4(3))
  qed
  moreover have "mapTextsIn f ns = mapTextsIn g ns"
  proof (rule 4(2))
    fix k cs assume "TextNode k cs \<in> set (descendantsIn ns)"
    then have "TextNode k cs \<in> set (descendantsIn (n # ns))" by auto
    then show "f (TextNode k cs) = g (TextNode k cs)" by (rule 4(3))
  qed
  ultimately show ?case by simp
qed auto

lemma mapTexts_keys:
  "\<forall>k cs. \<exists>cs'. g (TextNode k cs) = TextNode k cs' \<Longrightarrow> nodeKeys (mapTexts g n) = nodeKeys n"
  "\<forall>k cs. \<exists>cs'. g (TextNode k cs) = TextNode k cs' \<Longrightarrow> nodeKeysIn (mapTextsIn g ns) = nodeKeysIn ns"
proof (induction g n and g ns rule: mapTexts_mapTextsIn.induct)
  case (1 g k cs)
  then obtain cs' where "g (TextNode k cs) = TextNode k cs'" by blast
  then show ?case by simp
qed auto

lemma getTexts_keys:
  "distinct (nodeKeys n) \<Longrightarrow>
     distinct (map key (getTexts n)) \<and> set (map key (getTexts n)) \<subseteq> set (nodeKeysIn (nodes n))
     \<and> set (getTexts n) \<subseteq> set (descendants n)"
  "distinct (nodeKeysIn ns) \<Longrightarrow>
     distinct (map key (getTextsIn ns)) \<and> set (map key (getTextsIn ns)) \<subseteq> set (nodeKeysIn ns)
     \<and> set (getTextsIn ns) \<subseteq> set (descendantsIn ns)"
proof (induction n and ns rule: getTexts_getTextsIn.induct)
  case (4 n ns)
  let ?A = "if kind n = text_kind then [n] else getTexts n"
  from 4(3) have dn: "distinct (nodeKeys n)" and dns: "distinct (nodeKeysIn ns)"
    and disj: "set (nodeKeys n) \<inter> set (nodeKeysIn ns) = {}" by auto
  have a: "distinct (map key ?A) \<and> set (map key ?A) \<subseteq> set (nodeKeys n) \<and> set ?A \<subseteq> insert n (set (descendants n))"
  proof (cases "kind n = text_kind")
    case True
    then show ?thesis by (simp add: nodeKeys_nodes)
  next
    case False
    with 4(1)[OF False dn] show ?thesis by (auto simp: nodeKeys_nodes)
  qed
  from 4(2)[OF dns] have b: "distinct (map key (getTextsIn ns))"
    "set (map key (getTextsIn ns)) \<subseteq> set (nodeKeysIn ns)" "set (getTextsIn ns) \<subseteq> set (descendantsIn ns)"
    by auto
  have "set (map key ?A) \<inter> set (map key (getTextsIn ns)) = {}" using a b(2) disj by blast
  with a b have "distinct (map key (?A @ getTextsIn ns))" by simp
  moreover have "set (map key (?A @ getTextsIn ns)) \<subseteq> set (nodeKeysIn (n # ns))" using a b(2) by auto
  moreover have "set (?A @ getTextsIn ns) \<subseteq> set (descendantsIn (n # ns))" using a b(3) by auto
  ultimately show ?case by simp
qed auto

lemma getTextsAtRange_keys:
  assumes "distinct (nodeKeys d)" and "getTextsAtRange d r = Some texts"
  shows "distinct (map key texts) \<and> set texts \<subseteq> set (descendants d)"
proof -
  from assms(2) obtain a b where texts: "texts = slice a b (getTexts d)"
    by (auto simp: getTextsAtRange_def Let_def split: option.splits)
  then obtain i j where t: "texts = take i (drop j (getTexts d))" by (auto simp: slice_def Let_def)
  from getTexts_keys(1)[OF assms(1)] have d: "distinct (map key (getTexts d))"
    and s: "set (getTexts d) \<subseteq> set (descendants d)" by auto
  from d have "distinct (map key texts)" unfolding t by (simp add: take_map[symmetric] drop_map[symmetric])
  moreover have "set texts \<subseteq> set (getTexts d)" unfolding t
    by (meson set_drop_subset set_take_subset subset_trans)
  ultimately show ?thesis using s by auto
qed

lemma forEach_updateText_document:
  assumes S: "inert S"
    and step: "\<And>tx i t. f tx i t = updateText S (key tx) (h tx) (c tx) opts t"
  shows "distinct (nodeKeys (document t)) \<Longrightarrow> distinct (map key txs) \<Longrightarrow> forEach f txs i t = Some t' \<Longrightarrow>
     document t' = mapTexts (\<lambda>n. case find (\<lambda>tx. key tx = key n) txs of
                                   Some tx \<Rightarrow> TextNode (key n) (h tx (characters n)) | None \<Rightarrow> n) (document t)"
proof (induction txs arbitrary: i t)
  case Nil
  then show ?case by (simp add: mapTexts_id)
next
  case (Cons tx txs)
  let ?k = "key tx"
  let ?g = "\<lambda>n. TextNode (key n) (h tx (characters n))"
  let ?F = "\<lambda>n. if key n = ?k then ?g n else n"
  let ?G = "\<lambda>n. case find (\<lambda>tx. key tx = key n) txs of
                   Some tx \<Rightarrow> TextNode (key n) (h tx (characters n)) | None \<Rightarrow> n"
  from Cons.prems(3) obtain t1 where t1f: "f tx i t = Some t1"
    and rest: "forEach f txs (i + 1) t1 = Some t'"
    by (auto split: option.splits)
  from t1f have t1: "updateText S ?k (h tx) (c tx) opts t = Some t1" by (simp add: step)
  from updateText_document[OF S t1] obtain cs where
    g: "getDescendant (document t) ?k = Some (TextNode ?k cs)"
    and d1: "document t1 = updateNode ?k ?g (document t)" by blast
  have d1': "document t1 = mapTexts ?F (document t)"
    unfolding d1 using Cons.prems(1) g by (rule updateNode_mapTexts(1))
  have tn: "\<forall>k cs. \<exists>cs'. ?F (TextNode k cs) = TextNode k cs'" by simp
  have "distinct (nodeKeys (document t1))"
    unfolding d1' using Cons.prems(1) mapTexts_keys(1)[OF tn] by simp
  moreover have "distinct (map key txs)" using Cons.prems(2) by simp
  ultimately have "document t' = mapTexts ?G (document t1)" using rest by (rule Cons.IH)
  also have "\<dots> = mapTexts (\<lambda>n. ?G (?F n)) (document t)"
    unfolding d1' by (rule mapTexts_comp(1)) simp
  also have "\<dots> = mapTexts (\<lambda>n. case find (\<lambda>tx. key tx = key n) (tx # txs) of
                                   Some tx \<Rightarrow> TextNode (key n) (h tx (characters n)) | None \<Rightarrow> n) (document t)"
  proof (rule mapTexts_cong(1))
    fix k cs
    have "key tx \<notin> key ` set txs" using Cons.prems(2) by simp
    then have "find (\<lambda>x. key x = ?k) txs = None"
      unfolding find_None_iff by (metis image_eqI)
    then show "?G (?F (TextNode k cs)) =
          (case find (\<lambda>tx. key tx = key (TextNode k cs)) (tx # txs) of
             Some tx \<Rightarrow> TextNode (key (TextNode k cs)) (h tx (characters (TextNode k cs)))
           | None \<Rightarrow> TextNode k cs)"
      by simp
  qed
  finally show ?case .
qed

lemma marks_document:
  assumes S: "inert S"
    and step: "\<And>tx i t. f tx i t = updateText S (key tx)
                  (change (fst (leafInterval r tx)) (snd (leafInterval r tx)) m) (c tx) opts t"
    and dist: "distinct (nodeKeys (document t))"
    and texts: "getTextsAtRange (document t) r = Some texts"
    and fe: "forEach f texts i t = Some t'"
  shows "document t' = mapTexts (markLeaf change r m texts) (document t)"
proof -
  let ?h = "\<lambda>tx. change (fst (leafInterval r tx)) (snd (leafInterval r tx)) m"
  from getTextsAtRange_keys[OF dist texts] have dk: "distinct (map key texts)"
    and sub: "set texts \<subseteq> set (descendants (document t))" by auto
  have inj: "inj_on key (set (descendants (document t)))"
    using dist by (simp add: nodeKeys_nodes[of "document t"] keys_descendants(1)[symmetric] distinct_map)
  have "document t' = mapTexts (\<lambda>n. case find (\<lambda>tx. key tx = key n) texts of
                                   Some tx \<Rightarrow> TextNode (key n) (?h tx (characters n)) | None \<Rightarrow> n) (document t)"
    using S step dist dk fe by (rule forEach_updateText_document)
  also have "\<dots> = mapTexts (markLeaf change r m texts) (document t)"
  proof (rule mapTexts_cong(1))
    fix k cs assume mem: "TextNode k cs \<in> set (document t # descendants (document t))"
    show "(case find (\<lambda>tx. key tx = key (TextNode k cs)) texts of
             Some tx \<Rightarrow> TextNode (key (TextNode k cs)) (?h tx (characters (TextNode k cs)))
           | None \<Rightarrow> TextNode k cs) = markLeaf change r m texts (TextNode k cs)"
    proof (cases "find (\<lambda>tx. key tx = k) texts")
      case None
      then have "k \<notin> set (map key texts)" by (auto simp: find_None_iff)
      with None show ?thesis by (simp add: markLeaf_def)
    next
      case (Some tx)
      then have tx: "tx \<in> set texts" "key tx = k" by (auto simp: find_Some_iff)
      then have txd: "tx \<in> set (descendants (document t))" using sub by auto
      have "TextNode k cs \<in> set (descendants (document t))"
      proof (rule ccontr)
        assume "TextNode k cs \<notin> set (descendants (document t))"
        with mem have "document t = TextNode k cs" by auto
        with txd show False by simp
      qed
      then have mem': "TextNode k cs \<in> set (descendants (document t))" .
      have keq: "key tx = key (TextNode k cs)" using tx(2) by simp
      have "tx = TextNode k cs" by (rule inj_onD[OF inj keq txd mem'])
      moreover have "k \<in> set (map key texts)" using tx by auto
      ultimately show ?thesis using Some by (simp add: markLeaf_def)
    qed
  qed
  finally show ?thesis .
qed

lemma addMarkAtRange_document:
  assumes "inert S" and "distinct (nodeKeys (document t))" and "\<not> isCollapsed r"
    and "getTextsAtRange (document t) r = Some texts" and "addMarkAtRange S r m opts t = Some t'"
  shows "document t' = mapTexts (markLeaf addMarkChars r m texts) (document t)"
proof -
  let ?f = "\<lambda>tx (i::int). addMarkByKey S (key tx) (fst (leafInterval r tx)) (snd (leafInterval r tx))
                     m (with_normalize (normalize_or_true opts))"
  from assms(3,4,5) have fe: "forEach ?f texts 0 t = Some t'"
    by (simp add: addMarkAtRange_def leafInterval_eq Let_def cong: if_cong)
  show ?thesis
    by (rule marks_document[OF assms(1) _ assms(2) assms(4) fe]) (simp add: addMarkByKey_def)
qed

lemma removeMarkAtRange_document:
  assumes "inert S" and "distinct (nodeKeys (document t))" and "\<not> isCollapsed r"
    and "getTextsAtRange (document t) r = Some texts" and "removeMarkAtRange S r m opts t = Some t'"
  shows "document t' = mapTexts (markLeaf removeMarkChars r m texts) (document t)"
proof -
  let ?f = "\<lambda>tx (i::int). removeMarkByKey S (key tx) (fst (leafInterval r tx)) (snd (leafInterval r tx))
                     m (with_normalize (normalize_or_true opts))"
  from assms(3,4,5) have fe: "forEach ?f texts 0 t = Some t'"
    by (simp add: removeMarkAtRange_def leafInterval_eq Let_def cong: if_cong)
  show ?thesis
    by (rule marks_document[OF assms(1) _ assms(2) assms(4) fe]) (simp add: removeMarkByKey_def)
qed

text \<open>
  Claim C6. For an expanded range, \<^verbatim>\<open>addMarkAtRange\<close> and \<^verbatim>\<open>removeMarkAtRange\<close> invoke
  their mark primitive exactly once per text leaf spanned, in order, with the index and
  length of \<open>leafInterval\<close>: the full leaf for an interior leaf, an interval beginning at
  the start offset for the start leaf, the interval from 0 of length the end offset for the
  end leaf, and the interval from the start offset of length end offset minus start offset
  when both ends share the leaf. Within the leaf, the positions of that interval are
  exactly the positions the range covers. In the document, when the keys are unique and the
  repair pass of the schema changes nothing, every spanned leaf gets the mark added to
  (removed from) the characters of its interval, and nothing else changes.
\<close>

theorem C6_marks_per_leaf:
  assumes "\<not> isCollapsed r" and "getTextsAtRange (document t) r = Some texts"
  shows "(addMarkAtRange S r m opts t = Some t' \<longrightarrow>
            primitiveCalls t t' =
              map (\<lambda>tx. AddMarkByKey (key tx) (fst (leafInterval r tx)) (snd (leafInterval r tx))
                     m (with_normalize (normalize_or_true opts))) texts)
       \<and> (removeMarkAtRange S r m opts t = Some t' \<longrightarrow>
            primitiveCalls t t' =
              map (\<lambda>tx. RemoveMarkByKey (key tx) (fst (leafInterval r tx)) (snd (leafInterval r tx))
                     m (with_normalize (normalize_or_true opts))) texts)
       \<and> (\<forall>tx. (key tx \<noteq> startKey r \<and> key tx \<noteq> endKey r \<longrightarrow> leafInterval r tx = (0, node_length tx))
              \<and> (key tx = startKey r \<and> key tx \<noteq> endKey r \<longrightarrow> leafInterval r tx = (startOffset r, node_length tx))
              \<and> (key tx \<noteq> startKey r \<and> key tx = endKey r \<longrightarrow> leafInterval r tx = (0, endOffset r))
              \<and> (key tx = startKey r \<and> key tx = endKey r \<longrightarrow>
                    leafInterval r tx = (startOffset r, endOffset r - startOffset r))
              \<and> (\<forall>i. 0 \<le> startOffset r \<longrightarrow>
                    ((fst (leafInterval r tx) \<le> i \<and> i < fst (leafInterval r tx) + snd (leafInterval r tx)
                        \<and> 0 \<le> i \<and> i < node_length tx)
                     \<longleftrightarrow> (0 \<le> i \<and> i < node_length tx
                        \<and> (key tx = startKey r \<longrightarrow> startOffset r \<le> i)
                        \<and> (key tx = endKey r \<longrightarrow> i < endOffset r)))))
       \<and> (inert S \<and> distinct (nodeKeys (document t)) \<and> addMarkAtRange S r m opts t = Some t' \<longrightarrow>
            document t' =
              mapTexts (\<lambda>n. if key n \<in> set (map key texts)
                             then TextNode (key n)
                                    (addMarkChars (fst (leafInterval r n)) (snd (leafInterval r n)) m (characters n))
                             else n) (document t))
       \<and> (inert S \<and> distinct (nodeKeys (document t)) \<and> removeMarkAtRange S r m opts t = Some t' \<longrightarrow>
            document t' =
              mapTexts (\<lambda>n. if key n \<in> set (map key texts)
                             then TextNode (key n)
                                    (removeMarkChars (fst (leafInterval r n)) (snd (leafInterval r n)) m (characters n))
                             else n) (document t))"
proof (intro conjI impI allI)
  let ?g = "\<lambda>tx. AddMarkByKey (key tx) (fst (leafInterval r tx)) (snd (leafInterval r tx))
                     m (with_normalize (normalize_or_true opts))"
  assume "addMarkAtRange S r m opts t = Some t'"
  then have fe: "forEach (\<lambda>tx _ tr. addMarkByKey S (key tx) (fst (leafInterval r tx)) (snd (leafInterval r tx))
                     m (with_normalize (normalize_or_true opts)) tr) texts 0 t = Some t'"
    using assms by (simp add: addMarkAtRange_def leafInterval_eq Let_def cong: if_cong)
  have "\<exists>cs. calls t' = calls t @ cs \<and> filter (\<lambda>c. \<not> isNormalizeCall c) cs = map ?g texts"
    by (rule forEach_primitiveCalls[OF _ _ fe]) (auto simp: addMarkByKey_def dest!: updateText_calls)
  then show "primitiveCalls t t' = map ?g texts"
    by (auto simp: primitiveCalls_append)
next
  let ?g = "\<lambda>tx. RemoveMarkByKey (key tx) (fst (leafInterval r tx)) (snd (leafInterval r tx))
                     m (with_normalize (normalize_or_true opts))"
  assume "removeMarkAtRange S r m opts t = Some t'"
  then have fe: "forEach (\<lambda>tx _ tr. removeMarkByKey S (key tx) (fst (leafInterval r tx)) (snd (leafInterval r tx))
                     m (with_normalize (normalize_or_true opts)) tr) texts 0 t = Some t'"
    using assms by (simp add: removeMarkAtRange_def leafInterval_eq Let_def cong: if_cong)
  have "\<exists>cs. calls t' = calls t @ cs \<and> filter (\<lambda>c. \<not> isNormalizeCall c) cs = map ?g texts"
    by (rule forEach_primitiveCalls[OF _ _ fe]) (auto simp: removeMarkByKey_def dest!: updateText_calls)
  then show "primitiveCalls t t' = map ?g texts"
    by (auto simp: primitiveCalls_append)
next
  assume "inert S \<and> distinct (nodeKeys (document t)) \<and> addMarkAtRange S r m opts t = Some t'"
  then have "document t' = mapTexts (markLeaf addMarkChars r m texts) (document t)"
    using assms by (auto intro: addMarkAtRange_document)
  then show "document t' =
              mapTexts (\<lambda>n. if key n \<in> set (map key texts)
                             then TextNode (key n)
                                    (addMarkChars (fst (leafInterval r n)) (snd (leafInterval r n)) m (characters n))
                             else n) (document t)"
    by (simp add: markLeaf_def[abs_def])
next
  assume "inert S \<and> distinct (nodeKeys (document t)) \<and> removeMarkAtRange S r m opts t = Some t'"
  then have "document t' = mapTexts (markLeaf removeMarkChars r m texts) (document t)"
    using assms by (auto intro: removeMarkAtRange_document)
  then show "document t' =
              mapTexts (\<lambda>n. if key n \<in> set (map key texts)
                             then TextNode (key n)
                                    (removeMarkChars (fst (leafInterval r n)) (snd (leafInterval r n)) m (characters n))
                             else n) (document t)"
    by (simp add: markLeaf_def[abs_def])
qed (auto simp: leafInterval_eq)

theorem C6_marks_per_leaf_witness:
  "\<not> isCollapsed range_b_to_h
   \<and> getTextsAtRange (document three_blocks_transform) range_b_to_h
       = Some [TextNode 2 (plain ''abc''), TextNode 4 (marked bold ''def''), TextNode 6 (plain ''ghi'')]
   \<and> inert identity_schema
   \<and> distinct (nodeKeys (document three_blocks_transform))
   \<and> addMarkAtRange identity_schema range_b_to_h bold no_options three_blocks_transform \<noteq> None
   \<and> primitiveCalls three_blocks_transform
        (the (addMarkAtRange identity_schema range_b_to_h bold no_options three_blocks_transform))
       = [AddMarkByKey 2 1 3 bold (with_normalize True), AddMarkByKey 4 0 3 bold (with_normalize True),
          AddMarkByKey 6 0 2 bold (with_normalize True)]
   \<and> document (the (addMarkAtRange identity_schema range_b_to_h bold no_options three_blocks_transform))
       = three_blocks_marked
   \<and> removeMarkAtRange identity_schema range_b_to_h bold no_options three_blocks_transform \<noteq> None
   \<and> primitiveCalls three_blocks_transform
        (the (removeMarkAtRange identity_schema range_b_to_h bold no_options three_blocks_transform))
       = [RemoveMarkByKey 2 1 3 bold (with_normalize True), RemoveMarkByKey 4 0 3 bold (with_normalize True),
          RemoveMarkByKey 6 0 2 bold (with_normalize True)]
   \<and> document (the (removeMarkAtRange identity_schema range_b_to_h bold no_options three_blocks_transform))
       = three_blocks_unmarked"
proof -
  let ?texts = "[TextNode 2 (plain ''abc''), TextNode 4 (marked bold ''def''), TextNode 6 (plain ''ghi'')]"
  let ?a = "addMarkAtRange identity_schema range_b_to_h bold no_options three_blocks_transform"
  let ?r = "removeMarkAtRange identity_schema range_b_to_h bold no_options three_blocks_transform"
  have h1: "\<not> isCollapsed range_b_to_h"
    by (simp add: isCollapsed_def range_b_to_h_def)
  have h2: "getTextsAtRange (document three_blocks_transform) range_b_to_h = Some ?texts"
    by code_simp
  have h3: "?a = Some (the ?a)" by code_simp
  have h4: "?a \<noteq> None" using h3 by (metis option.distinct(1))
  have h5: "?r = Some (the ?r)" by code_simp
  have h6: "?r \<noteq> None" using h5 by (metis option.distinct(1))
  have h7: "inert identity_schema" by (simp add: inert_def identity_schema_def)
  have h8: "distinct (nodeKeys (document three_blocks_transform))" by code_simp
  note insta = C6_marks_per_leaf[OF h1 h2, of identity_schema bold no_options "the ?a"]
  note instr = C6_marks_per_leaf[OF h1 h2, of identity_schema bold no_options "the ?r"]
  have "primitiveCalls three_blocks_transform (the ?a)
          = map (\<lambda>tx. AddMarkByKey (key tx) (fst (leafInterval range_b_to_h tx)) (snd (leafInterval range_b_to_h tx))
                   bold (with_normalize (normalize_or_true no_options))) ?texts"
    using insta[THEN conjunct1, rule_format, OF h3] .
  also have "\<dots> = [AddMarkByKey 2 1 3 bold (with_normalize True), AddMarkByKey 4 0 3 bold (with_normalize True),
          AddMarkByKey 6 0 2 bold (with_normalize True)]"
    by code_simp
  finally have c1: "primitiveCalls three_blocks_transform (the ?a)
       = [AddMarkByKey 2 1 3 bold (with_normalize True), AddMarkByKey 4 0 3 bold (with_normalize True),
          AddMarkByKey 6 0 2 bold (with_normalize True)]" .
  have "primitiveCalls three_blocks_transform (the ?r)
          = map (\<lambda>tx. RemoveMarkByKey (key tx) (fst (leafInterval range_b_to_h tx)) (snd (leafInterval range_b_to_h tx))
                   bold (with_normalize (normalize_or_true no_options))) ?texts"
    using instr[THEN conjunct2, THEN conjunct1, rule_format, OF h5] .
  also have "\<dots> = [RemoveMarkByKey 2 1 3 bold (with_normalize True), RemoveMarkByKey 4 0 3 bold (with_normalize True),
          RemoveMarkByKey 6 0 2 bold (with_normalize True)]"
    by code_simp
  finally have c2: "primitiveCalls three_blocks_transform (the ?r)
       = [RemoveMarkByKey 2 1 3 bold (with_normalize True), RemoveMarkByKey 4 0 3 bold (with_normalize True),
          RemoveMarkByKey 6 0 2 bold (with_normalize True)]" .
  have "document (the ?a) =
          mapTexts (\<lambda>n. if key n \<in> set (map key ?texts)
                         then TextNode (key n)
                                (addMarkChars (fst (leafInterval range_b_to_h n)) (snd (leafInterval range_b_to_h n))
                                   bold (characters n))
                         else n) (document three_blocks_transform)"
    using insta[THEN conjunct2, THEN conjunct2, THEN conjunct2, THEN conjunct1, rule_format, OF conjI[OF h7 conjI[OF h8 h3]]] .
  also have "\<dots> = three_blocks_marked" by code_simp
  finally have c3: "document (the ?a) = three_blocks_marked" .
  have "document (the ?r) =
          mapTexts (\<lambda>n. if key n \<in> set (map key ?texts)
                         then TextNode (key n)
                                (removeMarkChars (fst (leafInterval range_b_to_h n)) (snd (leafInterval range_b_to_h n))
                                   bold (characters n))
                         else n) (document three_blocks_transform)"
    using instr[THEN conjunct2, THEN conjunct2, THEN conjunct2, THEN conjunct2, rule_format, OF conjI[OF h7 conjI[OF h8 h5]]] .
  also have "\<dots> = three_blocks_unmarked" by code_simp
  finally have c4: "document (the ?r) = three_blocks_unmarked" .
  show ?thesis by (intro conjI h1 h2 h7 h8 h4 c1 c3 h6 c2 c4)
qed

subsection \<open>The place of an inserted block\<close>

lemma removeDescendant_replace:
  "removeDescendant x n = replaceDescendant x [] n"
  "removeIn x ns = replaceIn x [] ns"
  by (induction x n and x ns rule: removeDescendant_removeIn.induct) auto

lemma getDescendant_descendant:
  "getDescendant n x = Some m \<Longrightarrow> m \<in> set (descendants n)"
  "getDescendantIn ns x = Some m \<Longrightarrow> m \<in> set (descendantsIn ns)"
  by (induction n x and ns x rule: getDescendant_getDescendantIn.induct)
     (auto split: if_splits option.splits)

lemma child_descendant: "c \<in> set (nodes p) \<Longrightarrow> c \<in> set (descendants p)"
proof (cases p)
  case (Container kd k ty v ns)
  have "c \<in> set ns \<Longrightarrow> c \<in> set (descendantsIn ns)" for ns
    by (induction ns) auto
  then show "c \<in> set (nodes p) \<Longrightarrow> c \<in> set (descendants p)" using Container by simp
qed simp

lemma descendant_key: "m \<in> set (descendants n) \<Longrightarrow> key m \<in> set (nodeKeysIn (nodes n))"
  unfolding keys_descendants(1)[symmetric] by simp

lemma descendantIn_key: "m \<in> set (descendantsIn ns) \<Longrightarrow> key m \<in> set (nodeKeysIn ns)"
  unfolding keys_descendants(2)[symmetric] by simp

lemma member_key: "n \<in> set ns \<Longrightarrow> key n \<in> set (nodeKeysIn ns)"
  by (induction ns) (auto simp: nodeKeys_nodes)

lemma replaceIn_child:
  "distinct (nodeKeysIn ns) \<Longrightarrow> i < length ns \<Longrightarrow> key (ns ! i) = k \<Longrightarrow>
     replaceIn k new ns = take i ns @ new @ drop (Suc i) ns"
proof (induction ns arbitrary: i)
  case Nil
  then show ?case by simp
next
  case (Cons n ns)
  from Cons.prems(1) have dns: "distinct (nodeKeysIn ns)"
    and disj: "set (nodeKeys n) \<inter> set (nodeKeysIn ns) = {}" by auto
  show ?case
  proof (cases i)
    case 0
    with Cons.prems(3) have kn: "key n = k" by simp
    then have "k \<in> set (nodeKeys n)" by (simp add: nodeKeys_nodes)
    with disj have "k \<notin> set (nodeKeysIn ns)" by auto
    then have "replaceIn k new ns = ns" by (rule replace_id)
    with kn 0 show ?thesis by simp
  next
    case (Suc j)
    with Cons.prems have j: "j < length ns" "key (ns ! j) = k" by auto
    then have "k \<in> set (nodeKeysIn ns)" using member_key[of "ns ! j" ns] by auto
    with disj have nk: "k \<notin> set (nodeKeys n)" by auto
    then have "key n \<noteq> k" by (auto simp: nodeKeys_nodes)
    moreover from nk have "replaceDescendant k new n = n" by (rule replace_id)
    moreover have "replaceIn k new ns = take j ns @ new @ drop (Suc j) ns" using dns j by (rule Cons.IH)
    ultimately show ?thesis using Suc by simp
  qed
qed

lemma key_updateNode: "\<forall>q. key (f q) = key q \<Longrightarrow> key (updateNode x f n) = key n"
  by (cases n) auto

lemma updateNode_at: "key n = x \<Longrightarrow> updateNode x f n = f n"
  by (cases n) auto

lemma replace_as_update:
  "distinct (nodeKeys n) \<Longrightarrow> getNode n x = Some p \<Longrightarrow> i < length (nodes p) \<Longrightarrow> key (nodes p ! i) = k \<Longrightarrow>
     f = setNodes (take i (nodes p) @ new @ drop (Suc i) (nodes p)) \<Longrightarrow>
     replaceDescendant k new n = updateNode x f n"
  "distinct (nodeKeysIn ns) \<Longrightarrow> getDescendantIn ns x = Some p \<Longrightarrow> i < length (nodes p) \<Longrightarrow> key (nodes p ! i) = k \<Longrightarrow>
     f = setNodes (take i (nodes p) @ new @ drop (Suc i) (nodes p)) \<Longrightarrow>
     replaceIn k new ns = updateNodeIn x f ns"
proof (induction x f n and x f ns rule: updateNode_updateNodeIn.induct)
  case (1 x f k0 cs)
  then show ?case by (auto simp: getNode_def split: if_splits)
next
  case (2 x f kd k0 ty v ns)
  show ?case
  proof (cases "k0 = x")
    case True
    with 2(3) have p: "p = Container kd k0 ty v ns" by (simp add: getNode_def)
    from 2(2) have "distinct (nodeKeysIn ns)" by simp
    then have "replaceIn k new ns = take i ns @ new @ drop (Suc i) ns"
      using 2(4,5) unfolding p by (intro replaceIn_child) auto
    then show ?thesis using True 2(6) p by simp
  next
    case False
    with 2(3) have "getDescendantIn ns x = Some p" by (simp add: getNode_def)
    moreover from 2(2) have "distinct (nodeKeysIn ns)" by simp
    ultimately have "replaceIn k new ns = updateNodeIn x f ns" using 2(4,5,6) by (intro 2(1)[OF False])
    with False show ?thesis by simp
  qed
next
  case (3 x f)
  then show ?case by simp
next
  case (4 x f n ns)
  from 4(3) have dn: "distinct (nodeKeys n)" and dns: "distinct (nodeKeysIn ns)"
    and disj: "set (nodeKeys n) \<inter> set (nodeKeysIn ns) = {}" by auto
  have kp: "k \<in> set (nodeKeysIn (nodes p))"
    using 4(5,6) member_key[of "nodes p ! i" "nodes p"] by auto
  show ?case
  proof (cases "key n = x \<or> getDescendant n x \<noteq> None")
    case True
    then have gn: "getNode n x = Some p" using 4(4) by (auto simp: getNode_def split: if_splits)
    have "set (nodeKeys p) \<subseteq> set (nodeKeys n)"
    proof (cases "key n = x")
      case True
      with gn show ?thesis by (simp add: getNode_def)
    next
      case False
      with gn have "p \<in> set (descendants n)" by (auto simp: getNode_def dest: getDescendant_descendant(1))
      then have "mset (nodeKeys p) \<subseteq># mset (nodeKeysIn (nodes n))" by (rule descendants_keys_subset)
      then have "set (nodeKeys p) \<subseteq> set (nodeKeysIn (nodes n))" by (metis set_mset_mono set_mset_mset)
      then show ?thesis by (auto simp: nodeKeys_nodes[of n])
    qed
    with kp have kn: "k \<in> set (nodeKeys n)" by (auto simp: nodeKeys_nodes[of p])
    have xn: "x \<in> set (nodeKeys n)" using True by (auto simp: nodeKeys_nodes getDescendant_None_iff)
    from kn disj have "k \<notin> set (nodeKeysIn ns)" by auto
    then have r1: "replaceIn k new ns = ns" by (rule replace_id)
    from xn disj have "x \<notin> set (nodeKeysIn ns)" by auto
    then have r2: "updateNodeIn x f ns = ns" by (rule updateNode_id)
    have "key n \<noteq> k"
    proof
      assume e: "key n = k"
      with kp have "key n \<in> set (nodeKeysIn (nodes p))" by simp
      show False
      proof (cases "key n = x")
        case True
        with gn have "p = n" by (simp add: getNode_def)
        with \<open>key n \<in> set (nodeKeysIn (nodes p))\<close> dn show False by (simp add: nodeKeys_nodes[of n])
      next
        case False
        with gn have "p \<in> set (descendants n)" by (auto simp: getNode_def dest: getDescendant_descendant(1))
        then have "mset (nodeKeys p) \<subseteq># mset (nodeKeysIn (nodes n))" by (rule descendants_keys_subset)
        then have "set (nodeKeys p) \<subseteq> set (nodeKeysIn (nodes n))" by (metis set_mset_mono set_mset_mset)
        with \<open>key n \<in> set (nodeKeysIn (nodes p))\<close> have "key n \<in> set (nodeKeysIn (nodes n))"
          by (auto simp: nodeKeys_nodes[of p])
        with dn show False by (simp add: nodeKeys_nodes[of n])
      qed
    qed
    moreover have "replaceDescendant k new n = updateNode x f n"
      using dn gn 4(5,6,7) by (rule 4(1))
    ultimately show ?thesis using r1 r2 by simp
  next
    case False
    then have nx: "x \<notin> set (nodeKeys n)" by (auto simp: nodeKeys_nodes getDescendant_None_iff)
    then have r2: "updateNode x f n = n" by (rule updateNode_id)
    from False 4(4) have gp: "getDescendantIn ns x = Some p" by auto
    then have "p \<in> set (descendantsIn ns)" by (rule getDescendant_descendant(2))
    then have "mset (nodeKeys p) \<subseteq># mset (nodeKeysIn ns)" by (rule descendants_keys_subset)
    then have "set (nodeKeys p) \<subseteq> set (nodeKeysIn ns)" by (metis set_mset_mono set_mset_mset)
    with kp have "k \<in> set (nodeKeysIn ns)" by (auto simp: nodeKeys_nodes[of p])
    with disj have nk: "k \<notin> set (nodeKeys n)" by auto
    then have "key n \<noteq> k" by (auto simp: nodeKeys_nodes)
    moreover from nk have "replaceDescendant k new n = n" by (rule replace_id)
    moreover have "replaceIn k new ns = updateNodeIn x f ns" using dns gp 4(5,6,7) by (rule 4(2))
    ultimately show ?thesis using r2 by simp
  qed
qed

lemma updateNode_cong:
  "distinct (nodeKeys n) \<Longrightarrow> getNode n x = Some p \<Longrightarrow> f p = g p \<Longrightarrow> updateNode x f n = updateNode x g n"
  "distinct (nodeKeysIn ns) \<Longrightarrow> getDescendantIn ns x = Some p \<Longrightarrow> f p = g p \<Longrightarrow>
     updateNodeIn x f ns = updateNodeIn x g ns"
proof (induction x f n and x f ns rule: updateNode_updateNodeIn.induct)
  case (1 x f k0 cs)
  then show ?case by (auto simp: getNode_def split: if_splits)
next
  case (2 x f kd k0 ty v ns)
  then show ?case by (auto simp: getNode_def split: if_splits)
next
  case (3 x f)
  then show ?case by simp
next
  case (4 x f n ns)
  from 4(3) have dn: "distinct (nodeKeys n)" and dns: "distinct (nodeKeysIn ns)"
    and disj: "set (nodeKeys n) \<inter> set (nodeKeysIn ns) = {}" by auto
  show ?case
  proof (cases "key n = x \<or> getDescendant n x \<noteq> None")
    case True
    then have gn: "getNode n x = Some p" using 4(4) by (auto simp: getNode_def split: if_splits)
    have xn: "x \<in> set (nodeKeys n)" using True by (auto simp: nodeKeys_nodes getDescendant_None_iff)
    with disj have "x \<notin> set (nodeKeysIn ns)" by auto
    then have "updateNodeIn x f ns = ns" "updateNodeIn x g ns = ns" by (auto intro: updateNode_id)
    moreover have "updateNode x f n = updateNode x g n" using dn gn 4(5) by (rule 4(1))
    ultimately show ?thesis by simp
  next
    case False
    then have nx: "x \<notin> set (nodeKeys n)" by (auto simp: nodeKeys_nodes getDescendant_None_iff)
    then have "updateNode x f n = n" "updateNode x g n = n" by (auto intro: updateNode_id)
    moreover from False 4(4) have gp: "getDescendantIn ns x = Some p" by auto
    with dns have "updateNodeIn x f ns = updateNodeIn x g ns" using 4(5) by (rule 4(2))
    ultimately show ?thesis by simp
  qed
qed

lemma updateNode_twice:
  "\<forall>q. key (f q) = key q \<Longrightarrow> updateNode x g (updateNode x f n) = updateNode x (\<lambda>q. g (f q)) n"
  "\<forall>q. key (f q) = key q \<Longrightarrow> updateNodeIn x g (updateNodeIn x f ns) = updateNodeIn x (\<lambda>q. g (f q)) ns"
  by (induction x f n and x f ns rule: updateNode_updateNodeIn.induct) (auto simp: updateNode_at)

lemma getDescendant_updateNode:
  "\<forall>q. key (f q) = key q \<Longrightarrow> key n \<noteq> x \<Longrightarrow>
     getDescendant (updateNode x f n) x = map_option f (getDescendant n x)"
  "\<forall>q. key (f q) = key q \<Longrightarrow>
     getDescendantIn (updateNodeIn x f ns) x = map_option f (getDescendantIn ns x)"
proof (induction x f n and x f ns rule: updateNode_updateNodeIn.induct)
  case (4 x f n ns)
  show ?case
  proof (cases "key n = x")
    case True
    then show ?thesis using 4(3) by (simp add: updateNode_at)
  next
    case False
    then have "key (updateNode x f n) \<noteq> x" using 4(3) by (simp add: key_updateNode)
    with False 4 show ?thesis by (auto split: option.splits)
  qed
qed auto

lemma getNode_updateNode:
  "\<forall>q. key (f q) = key q \<Longrightarrow> getNode (updateNode x f n) x = map_option f (getNode n x)"
  by (cases "key n = x") (auto simp: getNode_def updateNode_at key_updateNode getDescendant_updateNode(1))

lemma indexOf_nth:
  "x \<in> set xs \<Longrightarrow> \<exists>i<length xs. indexOf xs x = int i \<and> xs ! i = x"
proof (induction xs)
  case Nil
  then show ?case by simp
next
  case (Cons y ys)
  show ?case
  proof (cases "y = x")
    case True
    then show ?thesis by auto
  next
    case False
    with Cons obtain i where "i < length ys" "indexOf ys x = int i" "ys ! i = x" by auto
    then have "Suc i < length (y # ys) \<and> indexOf (y # ys) x = int (Suc i) \<and> (y # ys) ! Suc i = x"
      using False by (simp add: Let_def)
    then show ?thesis by blast
  qed
qed

lemma insertAt_nat: "i \<le> length xs \<Longrightarrow> insertAt (int i) x xs = take i xs @ x # drop i xs"
  by (simp add: insertAt_def resolveIndex_def Let_def min_def)

lemma getAncestors_Nil:
  "getAncestors n x = Some [] \<Longrightarrow> key n = x"
  by (cases n) (auto split: if_splits option.splits)

lemma getAncestors_parent:
  "getAncestors n x = Some as \<Longrightarrow> as \<noteq> [] \<Longrightarrow> \<exists>c\<in>set (nodes (last as)). key c = x"
  "getAncestorsIn ns x = Some as \<Longrightarrow> (as = [] \<longrightarrow> (\<exists>c\<in>set ns. key c = x))
      \<and> (as \<noteq> [] \<longrightarrow> (\<exists>c\<in>set (nodes (last as)). key c = x))"
proof (induction n x and ns x arbitrary: as and as rule: getAncestors_getAncestorsIn.induct)
  case (1 k cs x)
  then show ?case by (auto split: if_splits)
next
  case (2 kd k ty v ns x)
  show ?case
  proof (cases "k = x")
    case True
    with 2(2,3) show ?thesis by simp
  next
    case False
    with 2(2) obtain as' where as': "getAncestorsIn ns x = Some as'" and as: "as = Container kd k ty v ns # as'"
      by (auto split: option.splits)
    from 2(1)[OF False as'] show ?thesis unfolding as by (cases "as' = []") auto
  qed
next
  case (3 x)
  then show ?case by simp
next
  case (4 n ns x)
  show ?case
  proof (cases "getAncestors n x")
    case None
    with 4(3) have "getAncestorsIn ns x = Some as" by simp
    from 4(2)[OF None this] show ?thesis by auto
  next
    case (Some bs)
    with 4(3) have e: "as = bs" by simp
    show ?thesis
    proof (cases "as = []")
      case True
      with Some e have "key n = x" by (auto dest: getAncestors_Nil)
      with True show ?thesis by auto
    next
      case False
      with 4(1)[of as] Some e show ?thesis by auto
    qed
  qed
qed

lemma find_mem: "find P xs = Some x \<Longrightarrow> x \<in> set xs"
  by (induction xs) (auto split: if_splits)

lemma getNode_member:
  assumes "distinct (nodeKeys d)" and "p \<in> set (d # descendants d)"
  shows "getNode d (key p) = Some p"
proof (cases "p = d")
  case True
  then show ?thesis by (simp add: getNode_def)
next
  case False
  with assms(2) have pd: "p \<in> set (descendants d)" by simp
  then have "key p \<in> set (nodeKeysIn (nodes d))" by (rule descendant_key)
  with assms(1) have "key d \<noteq> key p" by (auto simp: nodeKeys_nodes[of d])
  moreover have "getDescendant d (key p) = Some p"
    using pd assms(1) by (intro getDescendant_descendants(1)) (auto simp: nodeKeys_nodes[of d])
  ultimately show ?thesis by (simp add: getNode_def)
qed

lemma parent_of_block:
  assumes dist: "distinct (nodeKeys d)"
    and cb: "getClosestBlock d x = Some (Some b)"
    and gp: "getParent d (key b) = Some p"
  shows "getNode d (key p) = Some p \<and> b \<in> set (nodes p) \<and> getDescendant d (key b) = Some b"
proof -
  from cb obtain as where as: "getAncestors d x = Some as" and f: "find (\<lambda>p. kind p = block_kind) (rev (tl as)) = Some b"
    by (auto simp: getClosestBlock_def getClosest_def split: option.splits)
  from f have "b \<in> set (tl as)" by (auto dest: find_mem)
  with getAncestors_descendants(1)[OF as] have bd: "b \<in> set (descendants d)" by auto
  from gp obtain bs where bs: "getAncestors d (key b) = Some bs" "bs \<noteq> []" "p = last bs"
    by (auto simp: getParent_def split: option.splits if_splits)
  from getAncestors_descendants(1)[OF bs(1)] bs(2,3) have pm: "p \<in> set (d # descendants d)"
    by (metis last_in_set list.simps(15) subset_iff)
  from getAncestors_parent(1)[OF bs(1,2)] bs(3) obtain c where c: "c \<in> set (nodes p)" "key c = key b" by auto
  from c(1) have "c \<in> set (descendants p)" by (rule child_descendant)
  with pm have cd: "c \<in> set (descendants d)" using descendants_trans(1)[of p d] by auto
  have inj: "inj_on key (set (descendants d))"
    using dist by (simp add: nodeKeys_nodes[of d] keys_descendants(1)[symmetric] distinct_map)
  have "c = b" by (rule inj_onD[OF inj c(2) cd bd])
  with c(1) have "b \<in> set (nodes p)" by simp
  moreover have "getNode d (key p) = Some p" using dist pm by (rule getNode_member)
  moreover have "getDescendant d (key b) = Some b"
    using bd dist by (intro getDescendant_descendants(1)) (auto simp: nodeKeys_nodes[of d])
  ultimately show ?thesis by simp
qed

lemma insertNodeByKey_inert:
  assumes "inert S" and "insertNodeByKey S pk i n opts t = Some t'"
  shows "insertNode pk i n (document t) = Some (document t') \<and> nextKey t' = nextKey t"
  using assms
  by (auto simp: insertNodeByKey_def Let_def split: option.splits if_splits dest!: normalizeNodeByKey_inert)

lemma removeNodeByKey_inert:
  assumes "inert S" and "removeNodeByKey S k opts t = Some t'"
  shows "document t' = removeDescendant k (document t) \<and> nextKey t' = nextKey t"
  using assms
  by (auto simp: removeNodeByKey_def split: option.splits dest!: normalizeParent_inert)

lemma splitNodeByKey_inert:
  assumes "inert S" and "splitNodeByKey S k off opts t = Some t'"
  shows "\<exists>n one two g. getDescendant (document t) k = Some n \<and> splitNode n off (nextKey t) = Some (one, two, g)
           \<and> document t' = replaceDescendant k [one, two] (document t)"
  using assms
  by (auto simp: splitNodeByKey_def split: option.splits dest!: normalizeParent_inert)

lemma insertNode_children:
  assumes dist: "distinct (nodeKeys d)" and gp: "getNode d pk = Some p"
    and ins: "insertNode pk i n d = Some d'"
  shows "d' = replaceChildren pk (insertAt i n (nodes p)) d"
proof -
  from ins have "d' = updateNode pk (\<lambda>q. setNodes (insertAt i n (nodes q)) q) d"
    by (auto simp: insertNode_def split: option.splits node.splits)
  also have "\<dots> = updateNode pk (setNodes (insertAt i n (nodes p))) d"
    using dist gp by (rule updateNode_cong(1)) simp
  finally show ?thesis by (simp add: replaceChildren_def)
qed

lemma key_setNodes2: "key (setNodes ns q) = key q"
  by (cases q) auto

lemma nodes_setNodes: "i < length (nodes p) \<Longrightarrow> nodes (setNodes ns p) = ns"
  by (cases p) auto

lemma setNodes_twice: "setNodes ns (setNodes ms q) = setNodes ns q"
  by (cases q) auto

lemma replaceChildren_twice:
  "replaceChildren pk ns (replaceChildren pk ms d) = replaceChildren pk ns d"
  unfolding replaceChildren_def
  by (subst updateNode_twice(1)) (simp_all add: key_setNodes2 setNodes_twice)

lemma getNode_replaceChildren:
  "getNode d pk = Some p \<Longrightarrow> getNode (replaceChildren pk ns d) pk = Some (setNodes ns p)"
  unfolding replaceChildren_def by (subst getNode_updateNode) (simp_all add: key_setNodes2)

lemma insertNode_after_replace:
  assumes dist: "distinct (nodeKeys d)" and gp: "getNode d pk = Some p" and c: "j < length (nodes p)"
    and ins: "insertNode pk i n (replaceChildren pk ns1 d) = Some d'"
  shows "d' = replaceChildren pk (insertAt i n ns1) d"
proof -
  let ?F = "\<lambda>q. setNodes (insertAt i n (nodes q)) q"
  from ins have "d' = updateNode pk ?F (replaceChildren pk ns1 d)"
    by (auto simp: insertNode_def split: option.splits node.splits)
  also have "\<dots> = updateNode pk (\<lambda>q. ?F (setNodes ns1 q)) d"
    unfolding replaceChildren_def by (rule updateNode_twice(1)) (simp add: key_setNodes2)
  also have "\<dots> = updateNode pk (setNodes (insertAt i n ns1)) d"
    using dist gp by (rule updateNode_cong(1)) (simp add: nodes_setNodes[OF c] setNodes_twice)
  finally show ?thesis by (simp add: replaceChildren_def)
qed

lemma insertAt_Suc: "i < length xs \<Longrightarrow> insertAt (int i + 1) x xs = take (Suc i) xs @ x # drop (Suc i) xs"
  using insertAt_nat[of "Suc i" xs x] by (simp add: add.commute)

lemma insertBlockAtRange_document:
  assumes S: "inert S" and dist: "distinct (nodeKeys (document t))" and col: "isCollapsed r"
    and ins: "insertBlockAtRange S r block opts t = Some t'"
    and cb: "getClosestBlock (document t) (startKey r) = Some (Some startBlock)"
    and gp: "getParent (document t) (key startBlock) = Some parent"
  shows "\<exists>i siblings. i < length (nodes parent) \<and> nodes parent ! i = startBlock
           \<and> indexOf (nodes parent) startBlock = int i
           \<and> document t' = replaceChildren (key parent) siblings (document t)
           \<and> getNode (document t') (key parent) = Some (setNodes siblings parent)
           \<and> (let before = take i (nodes parent); after = drop (Suc i) (nodes parent)
                in if isVoid startBlock then siblings = before @ [startBlock, block] @ after
                   else if isEmpty startBlock then siblings = before @ [block] @ after
                   else if isAtStartOf r startBlock then siblings = before @ [block, startBlock] @ after
                   else if isAtEndOf r startBlock then siblings = before @ [startBlock, block] @ after
                   else \<exists>base one two g.
                          getOffset startBlock (startKey r) = Some base
                          \<and> splitNode startBlock (base + startOffset r) (nextKey t) = Some (one, two, g)
                          \<and> siblings = before @ [one, block, two] @ after)"
proof -
  let ?d = "document t" and ?pk = "key parent" and ?ns = "nodes parent"
  let ?flag = "with_normalize (normalize_or_true opts)"
  from parent_of_block[OF dist cb gp] have gnp: "getNode ?d ?pk = Some parent"
    and mem: "startBlock \<in> set ?ns" and gsb: "getDescendant ?d (key startBlock) = Some startBlock" by auto
  from indexOf_nth[OF mem] obtain i where i: "i < length ?ns" "indexOf ?ns startBlock = int i" "?ns ! i = startBlock"
    by blast
  have ne: "\<not> isExpanded r" using col by (simp add: isExpanded_def)
  from ins ne cb gp obtain startText t1 where
    st: "getDescendant ?d (startKey r) = Some startText"
    and stage: "(if isVoid startBlock
             then insertNodeByKey S ?pk (indexOf ?ns startBlock + 1) block ?flag t
             else if isEmpty startBlock
             then Option.bind (removeNodeByKey S (key startBlock) no_options t)
                    (\<lambda>t. insertNodeByKey S ?pk (indexOf ?ns startBlock) block ?flag t)
             else if isAtStartOf r startBlock
             then insertNodeByKey S ?pk (indexOf ?ns startBlock) block ?flag t
             else if isAtEndOf r startBlock
             then insertNodeByKey S ?pk (indexOf ?ns startBlock + 1) block ?flag t
             else Option.bind (getOffset startBlock (key startText))
                    (\<lambda>base. Option.bind (splitNodeByKey S (key startBlock) (base + startOffset r) ?flag t)
                       (\<lambda>t. insertNodeByKey S ?pk (indexOf ?ns startBlock + 1) block ?flag t))) = Some t1"
    and fin: "(if normalize_or_true opts then normalizeNodeByKey S ?pk t1 else Some t1) = Some t'"
    unfolding insertBlockAtRange_def Let_def
    by (simp add: bind_eq_Some_conv) blast
  from fin S have dt: "document t' = document t1"
    by (auto split: if_splits dest: normalizeNodeByKey_inert)
  have kst: "key startText = startKey r" using st by (rule getDescendant_key(1))
  let ?before = "take i ?ns" and ?after = "drop (Suc i) ?ns"
  have next_sibling: "insertAt (int i + 1) block ?ns = ?before @ [startBlock, block] @ ?after"
    using i by (simp add: insertAt_Suc take_Suc_conv_app_nth)
  have prev_sibling: "insertAt (int i) block ?ns = ?before @ [block, startBlock] @ ?after"
    using i Cons_nth_drop_Suc[of i "nodes parent"] by (simp add: insertAt_nat)
  have simple: "document t1 = replaceChildren ?pk (insertAt j block ?ns) ?d"
    if "insertNodeByKey S ?pk j block ?flag t = Some t1" for j
    using insertNodeByKey_inert[OF S that] insertNode_children[OF dist gnp] by auto
  have "\<exists>siblings. document t1 = replaceChildren ?pk siblings ?d
          \<and> (if isVoid startBlock then siblings = ?before @ [startBlock, block] @ ?after
               else if isEmpty startBlock then siblings = ?before @ [block] @ ?after
               else if isAtStartOf r startBlock then siblings = ?before @ [block, startBlock] @ ?after
               else if isAtEndOf r startBlock then siblings = ?before @ [startBlock, block] @ ?after
               else \<exists>base one two g.
                      getOffset startBlock (startKey r) = Some base
                      \<and> splitNode startBlock (base + startOffset r) (nextKey t) = Some (one, two, g)
                      \<and> siblings = ?before @ [one, block, two] @ ?after)"
  proof (cases "isVoid startBlock")
    case True
    with stage have "insertNodeByKey S ?pk (int i + 1) block ?flag t = Some t1" by (simp add: i)
    from simple[OF this] True show ?thesis by (simp add: next_sibling)
  next
    case nv: False
    show ?thesis
    proof (cases "isEmpty startBlock")
      case True
      with stage nv obtain t0 where
        rm: "removeNodeByKey S (key startBlock) no_options t = Some t0"
        and insr: "insertNodeByKey S ?pk (int i) block ?flag t0 = Some t1"
        by (auto simp: bind_eq_Some_conv i)
      let ?ns1 = "?before @ [] @ ?after"
      from removeNodeByKey_inert[OF S rm] have "document t0 = replaceDescendant (key startBlock) [] ?d"
        by (simp add: removeDescendant_replace)
      also have "\<dots> = updateNode ?pk (setNodes ?ns1) ?d"
        using dist gnp i(1) by (rule replace_as_update(1)) (simp_all add: i)
      finally have d0: "document t0 = replaceChildren ?pk ?ns1 ?d" by (simp add: replaceChildren_def)
      from insertNodeByKey_inert[OF S insr] have "insertNode ?pk (int i) block (replaceChildren ?pk ?ns1 ?d) = Some (document t1)"
        by (simp add: d0)
      with dist gnp i(1) have "document t1 = replaceChildren ?pk (insertAt (int i) block ?ns1) ?d"
        by (rule insertNode_after_replace)
      moreover have "insertAt (int i) block ?ns1 = ?before @ [block] @ ?after"
        using i(1) by (simp add: insertAt_nat min_def)
      ultimately show ?thesis using nv True by simp
    next
      case ne: False
      show ?thesis
      proof (cases "isAtStartOf r startBlock")
        case True
        with stage nv ne have "insertNodeByKey S ?pk (int i) block ?flag t = Some t1" by (simp add: i)
        from simple[OF this] nv ne True show ?thesis by (simp add: prev_sibling)
      next
        case ns: False
        show ?thesis
        proof (cases "isAtEndOf r startBlock")
          case True
          with stage nv ne ns have "insertNodeByKey S ?pk (int i + 1) block ?flag t = Some t1" by (simp add: i)
          from simple[OF this] nv ne ns True show ?thesis by (simp add: next_sibling)
        next
          case nend: False
          with stage nv ne ns obtain base t0 where
            base: "getOffset startBlock (startKey r) = Some base"
            and sp: "splitNodeByKey S (key startBlock) (base + startOffset r) ?flag t = Some t0"
            and insr: "insertNodeByKey S ?pk (int i + 1) block ?flag t0 = Some t1"
            by (auto simp: bind_eq_Some_conv i kst)
          from splitNodeByKey_inert[OF S sp] gsb obtain one two g where
            s: "splitNode startBlock (base + startOffset r) (nextKey t) = Some (one, two, g)"
            and d0': "document t0 = replaceDescendant (key startBlock) [one, two] ?d" by auto
          let ?ns1 = "?before @ [one, two] @ ?after"
          have "replaceDescendant (key startBlock) [one, two] ?d = updateNode ?pk (setNodes ?ns1) ?d"
            using dist gnp i(1) by (rule replace_as_update(1)) (simp_all add: i)
          with d0' have d0: "document t0 = replaceChildren ?pk ?ns1 ?d" by (simp add: replaceChildren_def)
          from insertNodeByKey_inert[OF S insr]
          have "insertNode ?pk (int i + 1) block (replaceChildren ?pk ?ns1 ?d) = Some (document t1)"
            by (simp add: d0)
          with dist gnp i(1) have "document t1 = replaceChildren ?pk (insertAt (int i + 1) block ?ns1) ?d"
            by (rule insertNode_after_replace)
          moreover have "insertAt (int i + 1) block ?ns1 = ?before @ [one, block, two] @ ?after"
          proof -
            have "i < length ?ns1" using i(1) by simp
            then have "insertAt (int i + 1) block ?ns1 = take (Suc i) ?ns1 @ block # drop (Suc i) ?ns1"
              by (rule insertAt_Suc)
            also have "\<dots> = ?before @ [one, block, two] @ ?after" using i(1) by (simp add: min_def)
            finally show ?thesis .
          qed
          ultimately show ?thesis using nv ne ns nend base s by simp
        qed
      qed
    qed
  qed
  then obtain siblings where sib: "document t1 = replaceChildren ?pk siblings ?d"
    and shape: "(if isVoid startBlock then siblings = ?before @ [startBlock, block] @ ?after
               else if isEmpty startBlock then siblings = ?before @ [block] @ ?after
               else if isAtStartOf r startBlock then siblings = ?before @ [block, startBlock] @ ?after
               else if isAtEndOf r startBlock then siblings = ?before @ [startBlock, block] @ ?after
               else \<exists>base one two g.
                      getOffset startBlock (startKey r) = Some base
                      \<and> splitNode startBlock (base + startOffset r) (nextKey t) = Some (one, two, g)
                      \<and> siblings = ?before @ [one, block, two] @ ?after)" by blast
  have "getNode (document t') ?pk = Some (setNodes siblings parent)"
    unfolding dt sib using gnp by (rule getNode_replaceChildren)
  with i sib shape dt show ?thesis
    unfolding Let_def by (intro exI[of _ i] exI[of _ siblings]) simp
qed

text \<open>
  Claim C5. On an expanded range \<^verbatim>\<open>insertBlockAtRange\<close> first deletes the range and goes on
  with the range collapsed to its start. On a collapsed range, with the closest block of
  the start key as target and \<open>index\<close> its position in its parent, the primitive calls
  are: for a void target, the insertion at \<open>index + 1\<close>; else for an empty target, the
  removal of the target and the insertion at \<open>index\<close>; else at the start of the target, the
  insertion at \<open>index\<close>; else at its end, the insertion at \<open>index + 1\<close>; otherwise the
  split of the target at the offset of the point and the insertion at \<open>index + 1\<close>.
  In the document, when the keys are unique and the repair pass of the schema changes
  nothing, only the children of the parent of the target change: the new block stands
  right after a void target, in the place of an empty target, right before the target at
  its start, right after the target at its end, and otherwise between the two halves of
  the split target.
\<close>

theorem C5_insertBlock_cases:
  "(isExpanded r0 \<longrightarrow>
      insertBlockAtRange S r0 block opts t0 =
        Option.bind (deleteAtRange S r0 no_options t0) (insertBlockAtRange S (collapseToStart r0) block opts))
   \<and> (isCollapsed r \<and> insertBlockAtRange S r block opts t = Some t'
        \<and> getClosestBlock (document t) (startKey r) = Some (Some startBlock)
        \<and> getParent (document t) (key startBlock) = Some parent \<longrightarrow>
       (let index = indexOf (nodes parent) startBlock;
            flag = with_normalize (normalize_or_true opts)
        in if isVoid startBlock
           then primitiveCalls t t' = [InsertNodeByKey (key parent) (index + 1) block flag]
           else if isEmpty startBlock
           then primitiveCalls t t' = [RemoveNodeByKey (key startBlock) no_options,
                                        InsertNodeByKey (key parent) index block flag]
           else if isAtStartOf r startBlock
           then primitiveCalls t t' = [InsertNodeByKey (key parent) index block flag]
           else if isAtEndOf r startBlock
           then primitiveCalls t t' = [InsertNodeByKey (key parent) (index + 1) block flag]
           else (\<exists>base. getOffset startBlock (startKey r) = Some base \<and>
                   primitiveCalls t t' = [SplitNodeByKey (key startBlock) (base + startOffset r) flag,
                                          InsertNodeByKey (key parent) (index + 1) block flag])))
   \<and> (isCollapsed r \<and> insertBlockAtRange S r block opts t = Some t'
        \<and> getClosestBlock (document t) (startKey r) = Some (Some startBlock)
        \<and> getParent (document t) (key startBlock) = Some parent
        \<and> inert S \<and> distinct (nodeKeys (document t)) \<longrightarrow>
       (\<exists>i siblings.
          i < length (nodes parent) \<and> nodes parent ! i = startBlock
          \<and> indexOf (nodes parent) startBlock = int i
          \<and> document t' = replaceChildren (key parent) siblings (document t)
          \<and> getNode (document t') (key parent) = Some (setNodes siblings parent)
          \<and> (let before = take i (nodes parent); after = drop (Suc i) (nodes parent)
               in if isVoid startBlock then siblings = before @ [startBlock, block] @ after
                  else if isEmpty startBlock then siblings = before @ [block] @ after
                  else if isAtStartOf r startBlock then siblings = before @ [block, startBlock] @ after
                  else if isAtEndOf r startBlock then siblings = before @ [startBlock, block] @ after
                  else \<exists>base one two g.
                         getOffset startBlock (startKey r) = Some base
                         \<and> splitNode startBlock (base + startOffset r) (nextKey t) = Some (one, two, g)
                         \<and> siblings = before @ [one, block, two] @ after)))"
proof (intro conjI impI)
  assume "isExpanded r0"
  then show "insertBlockAtRange S r0 block opts t0 =
        Option.bind (deleteAtRange S r0 no_options t0) (insertBlockAtRange S (collapseToStart r0) block opts)"
    by (cases "deleteAtRange S r0 no_options t0")
       (simp_all add: insertBlockAtRange_def isExpanded_def collapse_simps Let_def)
next
  assume a: "isCollapsed r \<and> insertBlockAtRange S r block opts t = Some t'
        \<and> getClosestBlock (document t) (startKey r) = Some (Some startBlock)
        \<and> getParent (document t) (key startBlock) = Some parent"
  show "(let index = indexOf (nodes parent) startBlock;
            flag = with_normalize (normalize_or_true opts)
        in if isVoid startBlock
           then primitiveCalls t t' = [InsertNodeByKey (key parent) (index + 1) block flag]
           else if isEmpty startBlock
           then primitiveCalls t t' = [RemoveNodeByKey (key startBlock) no_options,
                                        InsertNodeByKey (key parent) index block flag]
           else if isAtStartOf r startBlock
           then primitiveCalls t t' = [InsertNodeByKey (key parent) index block flag]
           else if isAtEndOf r startBlock
           then primitiveCalls t t' = [InsertNodeByKey (key parent) (index + 1) block flag]
           else (\<exists>base. getOffset startBlock (startKey r) = Some base \<and>
                   primitiveCalls t t' = [SplitNodeByKey (key startBlock) (base + startOffset r) flag,
                                          InsertNodeByKey (key parent) (index + 1) block flag]))"
    using a
    by (auto simp: insertBlockAtRange_def isExpanded_def Let_def bind_eq_Some_conv
          primitiveCalls_def newCalls_def filter_empty_conv OPTS_simps
          split: if_splits
          dest!: insertNodeByKey_calls removeNodeByKey_calls splitNodeByKey_calls
                 normalizeNodeByKey_calls getDescendant_key(1))
next
  assume a: "isCollapsed r \<and> insertBlockAtRange S r block opts t = Some t'
        \<and> getClosestBlock (document t) (startKey r) = Some (Some startBlock)
        \<and> getParent (document t) (key startBlock) = Some parent
        \<and> inert S \<and> distinct (nodeKeys (document t))"
  then have "inert S" "distinct (nodeKeys (document t))" "isCollapsed r"
    "insertBlockAtRange S r block opts t = Some t'"
    "getClosestBlock (document t) (startKey r) = Some (Some startBlock)"
    "getParent (document t) (key startBlock) = Some parent" by simp_all
  then show "\<exists>i siblings.
          i < length (nodes parent) \<and> nodes parent ! i = startBlock
          \<and> indexOf (nodes parent) startBlock = int i
          \<and> document t' = replaceChildren (key parent) siblings (document t)
          \<and> getNode (document t') (key parent) = Some (setNodes siblings parent)
          \<and> (let before = take i (nodes parent); after = drop (Suc i) (nodes parent)
               in if isVoid startBlock then siblings = before @ [startBlock, block] @ after
                  else if isEmpty startBlock then siblings = before @ [block] @ after
                  else if isAtStartOf r startBlock then siblings = before @ [block, startBlock] @ after
                  else if isAtEndOf r startBlock then siblings = before @ [startBlock, block] @ after
                  else \<exists>base one two g.
                         getOffset startBlock (startKey r) = Some base
                         \<and> splitNode startBlock (base + startOffset r) (nextKey t) = Some (one, two, g)
                         \<and> siblings = before @ [one, block, two] @ after)"
    by (rule insertBlockAtRange_document)
qed

theorem C5_insertBlock_cases_witness:
  "isCollapsed caret_in_abc
   \<and> insertBlockAtRange identity_schema caret_in_abc new_block no_options three_blocks_transform \<noteq> None
   \<and> getClosestBlock (document three_blocks_transform) (startKey caret_in_abc)
        = Some (Some (paragraph_block 1 [TextNode 2 (plain ''abc'')]))
   \<and> getParent (document three_blocks_transform) (key (paragraph_block 1 [TextNode 2 (plain ''abc'')]))
        = Some three_blocks
   \<and> inert identity_schema
   \<and> distinct (nodeKeys (document three_blocks_transform))
   \<and> primitiveCalls three_blocks_transform
        (the (insertBlockAtRange identity_schema caret_in_abc new_block no_options three_blocks_transform))
        = [SplitNodeByKey 1 1 (with_normalize True), InsertNodeByKey 0 1 new_block (with_normalize True)]
   \<and> document (the (insertBlockAtRange identity_schema caret_in_abc new_block no_options three_blocks_transform))
        = replaceChildren 0
            [paragraph_block 1 [TextNode 2 (plain ''a'')], new_block,
             paragraph_block 11 [TextNode 10 (plain ''bc'')],
             paragraph_block 3 [TextNode 4 (marked bold ''def'')],
             paragraph_block 5 [TextNode 6 (plain ''ghi'')]] three_blocks
   \<and> document (the (insertBlockAtRange identity_schema caret_in_abc new_block no_options three_blocks_transform))
        = block_after_split
   \<and> isExpanded range_in_abc
   \<and> insertBlockAtRange identity_schema range_in_abc new_block no_options three_blocks_transform
        = Option.bind (deleteAtRange identity_schema range_in_abc no_options three_blocks_transform)
            (insertBlockAtRange identity_schema (collapseToStart range_in_abc) new_block no_options)
   \<and> map_option document
        (insertBlockAtRange identity_schema range_in_abc new_block no_options three_blocks_transform)
        = Some block_after_delete
   \<and> map_option document (insertBlockAtRange identity_schema (caret_at 2 0) new_block no_options void_first)
        = Some block_after_void
   \<and> map_option document (insertBlockAtRange identity_schema (caret_at 2 0) new_block no_options empty_first)
        = Some block_for_empty
   \<and> map_option document (insertBlockAtRange identity_schema (caret_at 4 0) new_block no_options three_blocks_transform)
        = Some block_before_def
   \<and> map_option document (insertBlockAtRange identity_schema (caret_at 4 3) new_block no_options three_blocks_transform)
        = Some block_after_def"
proof -
  let ?A = "paragraph_block 1 [TextNode 2 (plain ''abc'')]"
  let ?A1 = "paragraph_block 1 [TextNode 2 (plain ''a'')]"
  let ?A2 = "paragraph_block 11 [TextNode 10 (plain ''bc'')]"
  let ?B = "paragraph_block 3 [TextNode 4 (marked bold ''def'')]"
  let ?C = "paragraph_block 5 [TextNode 6 (plain ''ghi'')]"
  let ?res = "insertBlockAtRange identity_schema caret_in_abc new_block no_options three_blocks_transform"
  have h1: "isCollapsed caret_in_abc" by code_simp
  have h2: "?res = Some (the ?res)" by code_simp
  have h3: "getClosestBlock (document three_blocks_transform) (startKey caret_in_abc) = Some (Some ?A)"
    by code_simp
  have h4: "getParent (document three_blocks_transform) (key ?A) = Some three_blocks" by code_simp
  have h5: "inert identity_schema" by (simp add: inert_def identity_schema_def)
  have h6: "distinct (nodeKeys (document three_blocks_transform))" by code_simp
  have h7: "isExpanded range_in_abc" by code_simp
  note inst = C5_insertBlock_cases[THEN conjunct2, THEN conjunct1, rule_format,
                OF conjI[OF h1 conjI[OF h2 conjI[OF h3 h4]]]]
  note inst3 = C5_insertBlock_cases[THEN conjunct2, THEN conjunct2, rule_format,
                OF conjI[OF h1 conjI[OF h2 conjI[OF h3 conjI[OF h4 conjI[OF h5 h6]]]]]]
  note inst1 = C5_insertBlock_cases[THEN conjunct1, rule_format, OF h7,
                of identity_schema new_block no_options three_blocks_transform]
  have e: "isVoid ?A = False" "isEmpty ?A = False" "isAtStartOf caret_in_abc ?A = False"
    "isAtEndOf caret_in_abc ?A = False" "getOffset ?A (startKey caret_in_abc) = Some 0"
    "indexOf (nodes three_blocks) ?A = 0" "startOffset caret_in_abc = 1"
    "normalize_or_true no_options = True" "key ?A = 1" "key three_blocks = 0"
    by code_simp+
  have e3: "nodes three_blocks = [?A, ?B, ?C]" "nextKey three_blocks_transform = 10"
    "document three_blocks_transform = three_blocks"
    "splitNode ?A 1 10 = Some (?A1, ?A2, 12)"
    by code_simp+
  have k: "primitiveCalls three_blocks_transform (the ?res)
        = [SplitNodeByKey 1 1 (with_normalize True), InsertNodeByKey 0 1 new_block (with_normalize True)]"
    using inst unfolding Let_def e by simp
  from inst3 obtain i siblings where
    i: "indexOf (nodes three_blocks) ?A = int i"
    and d: "document (the ?res) = replaceChildren (key three_blocks) siblings (document three_blocks_transform)"
    and s: "\<exists>base one two g.
              getOffset ?A (startKey caret_in_abc) = Some base
              \<and> splitNode ?A (base + startOffset caret_in_abc) (nextKey three_blocks_transform) = Some (one, two, g)
              \<and> siblings = take i (nodes three_blocks) @ [one, new_block, two] @ drop (Suc i) (nodes three_blocks)"
    unfolding Let_def e by auto
  from i have i0: "i = 0" unfolding e by simp
  from s obtain base one two g where
    b: "getOffset ?A (startKey caret_in_abc) = Some base"
    and sp: "splitNode ?A (base + startOffset caret_in_abc) (nextKey three_blocks_transform) = Some (one, two, g)"
    and sib: "siblings = take i (nodes three_blocks) @ [one, new_block, two] @ drop (Suc i) (nodes three_blocks)"
    by blast
  from b have "base = 0" unfolding e by simp
  then have "base + startOffset caret_in_abc = 1" unfolding e by simp
  with sp have sp': "splitNode ?A 1 10 = Some (one, two, g)" by (simp only: e3)
  have "Some (one, two, g) = Some (?A1, ?A2, 12)" using sp'[symmetric] e3(4) by (rule trans)
  then have "one = ?A1" "two = ?A2" by simp_all
  with sib have "siblings = [?A1, new_block, ?A2, ?B, ?C]" unfolding e3 i0 by simp
  with d have k3: "document (the ?res) = replaceChildren 0 [?A1, new_block, ?A2, ?B, ?C] three_blocks"
    unfolding e e3 by simp
  have p1: "document (the ?res) = block_after_split" by code_simp
  have p2: "map_option document
        (insertBlockAtRange identity_schema range_in_abc new_block no_options three_blocks_transform)
        = Some block_after_delete" by code_simp
  have p3: "map_option document (insertBlockAtRange identity_schema (caret_at 2 0) new_block no_options void_first)
        = Some block_after_void" by code_simp
  have p4: "map_option document (insertBlockAtRange identity_schema (caret_at 2 0) new_block no_options empty_first)
        = Some block_for_empty" by code_simp
  have p5: "map_option document (insertBlockAtRange identity_schema (caret_at 4 0) new_block no_options three_blocks_transform)
        = Some block_before_def" by code_simp
  have p6: "map_option document (insertBlockAtRange identity_schema (caret_at 4 3) new_block no_options three_blocks_transform)
        = Some block_after_def" by code_simp
  have h2': "?res \<noteq> None" using h2 by (metis option.distinct(1))
  show ?thesis by (intro conjI h1 h2' h3 h4 h5 h6 k k3 p1 h7 inst1 p2 p3 p4 p5 p6)
qed

end
